theory Spec2Isabelle
  imports Main
begin

section \<open>Data model: the tables of database/simple.js\<close>

text \<open>
  The SQLite schema has three tables the order engine touches: \<open>leads\<close>, \<open>orders\<close> and
  \<open>state_caps\<close>. A row is a record, a table is the list of its rows in rowid order, and the
  \<open>CHECK (status IN ...)\<close> constraints are the two status datatypes. Timestamps are
  natural numbers (seconds); identifiers are the \<open>INTEGER PRIMARY KEY AUTOINCREMENT\<close>
  rowids.
\<close>

datatype lead_status = Unassigned | Assigned | Fulfilled

datatype order_status = Pending | OrderFulfilled | Cancelled

record lead =
  lead_id :: nat
  name :: string
  email :: string
  phone :: "string option"
  state :: string
  status :: lead_status
  order_id :: "nat option"
  created_at :: nat
  updated_at :: nat

record order_row =
  oid :: nat
  customer_name :: string
  customer_email :: string
  ostatus :: order_status
  ocreated_at :: nat
  oupdated_at :: nat
  fulfilled_at :: "nat option"

text \<open>\<open>orders_seq\<close> is the \<open>sqlite_sequence\<close> entry that AUTOINCREMENT keeps for \<open>orders\<close>.\<close>

record tables =
  leads :: "lead list"
  orders :: "order_row list"
  state_caps :: "(string \<times> int) list"
  orders_seq :: nat

text \<open>
  The connection: the current contents, the snapshot that \<open>BEGIN TRANSACTION\<close> took
  (if a transaction is open), the value of \<open>datetime("now")\<close>, and the environment's
  fault plan: one entry for each statement that will be sent to SQLite, in order, \<open>True\<close>
  when the storage layer rejects that statement; past the end of the list no statement
  is rejected. All requests use this one connection.
\<close>

record conn =
  db :: tables
  saved :: "tables option"
  now :: nat
  faults :: "bool list"

datatype error =
    ValidationError
  | NotFound
  | AlreadyFulfilled
  | InvalidAction
  | InvalidStatus
  | StorageError
  | TypeError
  | OneTimeRuleFailed error

section \<open>Promises: a computation on the connection that resolves or rejects\<close>

type_synonym 'a tx = "conn \<Rightarrow> (error + 'a) \<times> conn"

definition ret :: "'a \<Rightarrow> 'a tx" where
  "ret x c = (Inr x, c)"

definition throw :: "error \<Rightarrow> 'a tx" where
  "throw e c = (Inl e, c)"

text \<open>\<open>await m k\<close>: run \<open>m\<close>; a rejection propagates, a result is passed on to \<open>k\<close>.\<close>

definition await :: "'a tx \<Rightarrow> ('a \<Rightarrow> 'b tx) \<Rightarrow> 'b tx" where
  "await m k c = (case m c of (Inl e, c') \<Rightarrow> (Inl e, c') | (Inr x, c') \<Rightarrow> k x c')"

text \<open>
  Sending one statement consumes one entry of the fault plan; the result tells whether
  the storage layer accepted the statement.
\<close>

definition accept :: "conn \<Rightarrow> bool \<times> conn" where
  "accept c =
     (case faults c of
        [] \<Rightarrow> (True, c)
      | rejected # rest \<Rightarrow> (\<not> rejected, c\<lparr>faults := rest\<rparr>))"

text \<open>
  \<open>client.query\<close> / \<open>db.query\<close>: one SQL statement, given as a function of
  \<open>datetime("now")\<close> and the tables returning the statement's result and the new tables.
  A rejected statement changes nothing and rejects the promise.
\<close>

definition query :: "(nat \<Rightarrow> tables \<Rightarrow> 'r \<times> tables) \<Rightarrow> 'r tx" where
  "query stmt c =
     (case accept c of
        (False, c') \<Rightarrow> (Inl StorageError, c')
      | (True, c') \<Rightarrow>
          (case stmt (now c') (db c') of (r, t) \<Rightarrow> (Inr r, c'\<lparr>db := t\<rparr>)))"

text \<open>
  \<open>Database.transaction\<close> of the SQLite module. SQLite's own part is modelled as a
  snapshot: a transaction is open while \<open>saved\<close> holds the tables as they were at
  \<open>BEGIN\<close>, the statements of an open transaction change \<open>db\<close>, which is what every
  later statement on the connection sees, \<open>COMMIT\<close> drops the snapshot and
  \<open>ROLLBACK\<close> puts it back (the AUTOINCREMENT sequence included).

  \<^item> \<open>this.db.run('BEGIN TRANSACTION')\<close> has no callback: when the statement is rejected,
    or a transaction is already open, the error reaches nobody and the callback runs
    all the same.
  \<^item> When the callback resolves, \<open>COMMIT\<close> is sent; when \<open>COMMIT\<close> fails (rejected, or
    no transaction is open), the call is rejected with that error and nothing else is
    done: no \<open>ROLLBACK\<close> is sent.
  \<^item> When the callback rejects, \<open>ROLLBACK\<close> is sent; when it fails (rejected, or no
    transaction is open), the call is rejected with the error of the \<open>ROLLBACK\<close>,
    otherwise with the error of the callback.
\<close>

definition begin_transaction :: "conn \<Rightarrow> conn" where
  "begin_transaction c =
     (case accept c of
        (ok, c') \<Rightarrow> if ok \<and> saved c' = None then c'\<lparr>saved := Some (db c')\<rparr> else c')"

definition commit :: "'a \<Rightarrow> 'a tx" where
  "commit result c =
     (case accept c of
        (ok, c') \<Rightarrow>
          if ok \<and> saved c' \<noteq> None then (Inr result, c'\<lparr>saved := None\<rparr>)
          else (Inl StorageError, c'))"

definition rollback :: "error \<Rightarrow> 'a tx" where
  "rollback err c =
     (case accept c of
        (ok, c') \<Rightarrow>
          (case saved c' of
             Some t \<Rightarrow> if ok then (Inl err, c'\<lparr>db := t, saved := None\<rparr>)
                       else (Inl StorageError, c')
           | None \<Rightarrow> (Inl StorageError, c')))"

definition transaction :: "'a tx \<Rightarrow> 'a tx" where
  "transaction callback c =
     (case callback (begin_transaction c) of
        (Inr result, c') \<Rightarrow> commit result c'
      | (Inl err, c') \<Rightarrow> rollback err c')"

section \<open>The SQL statements of the route handlers\<close>

text \<open>\<open>INSERT INTO orders (customer_name, customer_email) VALUES (?, ?)\<close>; the result is \<open>lastID\<close>.\<close>

definition sql_insert_order :: "string \<Rightarrow> string \<Rightarrow> nat \<Rightarrow> tables \<Rightarrow> nat \<times> tables" where
  "sql_insert_order cname cemail t0 t =
     (let new_id = Suc (fold max (map oid (orders t)) (orders_seq t));
          row = \<lparr>oid = new_id, customer_name = cname, customer_email = cemail,
                 ostatus = Pending, ocreated_at = t0, oupdated_at = t0, fulfilled_at = None\<rparr>
      in (new_id, t\<lparr>orders := orders t @ [row], orders_seq := new_id\<rparr>))"

text \<open>\<open>SELECT * FROM orders WHERE id = ?\<close>\<close>

definition sql_select_order :: "nat \<Rightarrow> nat \<Rightarrow> tables \<Rightarrow> order_row list \<times> tables" where
  "sql_select_order i t0 t = (filter (\<lambda>r. oid r = i) (orders t), t)"

text \<open>\<open>SELECT state, max_leads FROM state_caps\<close>\<close>

definition sql_select_caps :: "nat \<Rightarrow> tables \<Rightarrow> (string \<times> int) list \<times> tables" where
  "sql_select_caps t0 t = (state_caps t, t)"

text \<open>The count query: \<open>SELECT COUNT\<close> of all rows \<open>FROM leads WHERE state = ? AND status = 'assigned'\<close>\<close>

definition sql_count_assigned :: "string \<Rightarrow> nat \<Rightarrow> tables \<Rightarrow> int \<times> tables" where
  "sql_count_assigned st t0 t =
     (int (length (filter (\<lambda>l. state l = st \<and> status l = Assigned) (leads t))), t)"

text \<open>
  \<open>SELECT * FROM leads WHERE state = ? AND status = 'unassigned' ORDER BY created_at ASC LIMIT ?\<close>.
  The statement names no second sort key; rows with equal \<open>created_at\<close> are returned in
  table order (a stable sort of the table scan).
\<close>

definition sql_select_oldest_unassigned ::
  "string \<Rightarrow> int \<Rightarrow> nat \<Rightarrow> tables \<Rightarrow> lead list \<times> tables" where
  "sql_select_oldest_unassigned st lim t0 t =
     (take (nat lim)
        (sort_key created_at (filter (\<lambda>l. state l = st \<and> status l = Unassigned) (leads t))), t)"

text \<open>\<open>UPDATE leads SET status = 'assigned', order_id = ?, updated_at = datetime("now") WHERE id = ?\<close>\<close>

definition sql_assign_lead :: "nat \<Rightarrow> nat \<Rightarrow> nat \<Rightarrow> tables \<Rightarrow> unit \<times> tables" where
  "sql_assign_lead ord_id lid t0 t =
     ((), t\<lparr>leads := map (\<lambda>l. if lead_id l = lid
                                 then l\<lparr>status := Assigned, order_id := Some ord_id, updated_at := t0\<rparr>
                                 else l) (leads t)\<rparr>)"

text \<open>\<open>UPDATE orders SET status = 'fulfilled', fulfilled_at = datetime("now"), updated_at = datetime("now") WHERE id = ?\<close>\<close>

definition sql_fulfill_order :: "nat \<Rightarrow> nat \<Rightarrow> tables \<Rightarrow> unit \<times> tables" where
  "sql_fulfill_order i t0 t =
     ((), t\<lparr>orders := map (\<lambda>r. if oid r = i
                                  then r\<lparr>ostatus := OrderFulfilled, fulfilled_at := Some t0, oupdated_at := t0\<rparr>
                                  else r) (orders t)\<rparr>)"

text \<open>\<open>UPDATE leads SET status = 'fulfilled', updated_at = datetime("now") WHERE order_id = ?\<close>\<close>

definition sql_fulfill_leads :: "nat \<Rightarrow> nat \<Rightarrow> tables \<Rightarrow> unit \<times> tables" where
  "sql_fulfill_leads i t0 t =
     ((), t\<lparr>leads := map (\<lambda>l. if order_id l = Some i
                                 then l\<lparr>status := Fulfilled, updated_at := t0\<rparr>
                                 else l) (leads t)\<rparr>)"

text \<open>\<open>UPDATE orders SET status = 'cancelled', updated_at = datetime("now") WHERE id = ?\<close>\<close>

definition sql_cancel_order :: "nat \<Rightarrow> nat \<Rightarrow> tables \<Rightarrow> unit \<times> tables" where
  "sql_cancel_order i t0 t =
     ((), t\<lparr>orders := map (\<lambda>r. if oid r = i
                                  then r\<lparr>ostatus := Cancelled, oupdated_at := t0\<rparr>
                                  else r) (orders t)\<rparr>)"

text \<open>\<open>UPDATE leads SET status = 'unassigned', order_id = NULL, updated_at = datetime("now") WHERE order_id = ?\<close>\<close>

definition sql_release_leads :: "nat \<Rightarrow> nat \<Rightarrow> tables \<Rightarrow> unit \<times> tables" where
  "sql_release_leads i t0 t =
     ((), t\<lparr>leads := map (\<lambda>l. if order_id l = Some i
                                 then l\<lparr>status := Unassigned, order_id := None, updated_at := t0\<rparr>
                                 else l) (leads t)\<rparr>)"

text \<open>\<open>DELETE FROM orders WHERE id = ?\<close>\<close>

definition sql_delete_order :: "nat \<Rightarrow> nat \<Rightarrow> tables \<Rightarrow> unit \<times> tables" where
  "sql_delete_order i t0 t = ((), t\<lparr>orders := filter (\<lambda>r. oid r \<noteq> i) (orders t)\<rparr>)"

text \<open>\<open>UPDATE leads SET status = ?, updated_at = datetime("now") WHERE id = ?\<close>; the result is \<open>rowCount\<close>.\<close>

definition sql_set_lead_status :: "lead_status \<Rightarrow> nat \<Rightarrow> nat \<Rightarrow> tables \<Rightarrow> nat \<times> tables" where
  "sql_set_lead_status s lid t0 t =
     (length (filter (\<lambda>l. lead_id l = lid) (leads t)),
      t\<lparr>leads := map (\<lambda>l. if lead_id l = lid then l\<lparr>status := s, updated_at := t0\<rparr> else l)
                     (leads t)\<rparr>)"

text \<open>\<open>SELECT * FROM leads WHERE id = ?\<close>\<close>

definition sql_select_lead :: "nat \<Rightarrow> nat \<Rightarrow> tables \<Rightarrow> lead list \<times> tables" where
  "sql_select_lead lid t0 t = (filter (\<lambda>l. lead_id l = lid) (leads t), t)"

section \<open>The JavaScript around the cap lookup\<close>

text \<open>
  \<open>stateCaps\<close> is \<open>Object.fromEntries\<close> of the cap rows, a plain object: a lookup finds
  the own entry (the last one for a key), else what \<open>Object.prototype\<close> has under that
  name, else \<open>undefined\<close>.
\<close>

datatype jsval = JUndefined | JNumber int | JObject

definition object_prototype_keys :: "string list" where
  "object_prototype_keys =
     [''constructor'', ''__defineGetter__'', ''__defineSetter__'', ''hasOwnProperty'',
      ''__lookupGetter__'', ''__lookupSetter__'', ''isPrototypeOf'', ''propertyIsEnumerable'',
      ''toString'', ''valueOf'', ''__proto__'', ''toLocaleString'']"

definition js_get :: "(string \<times> int) list \<Rightarrow> string \<Rightarrow> jsval" where
  "js_get rows k =
     (case map_of (rev rows) k of
        Some n \<Rightarrow> JNumber n
      | None \<Rightarrow> if k \<in> set object_prototype_keys then JObject else JUndefined)"

text \<open>\<open>v || d\<close>: \<open>undefined\<close> and \<open>0\<close> are falsy.\<close>

definition js_or :: "jsval \<Rightarrow> int \<Rightarrow> jsval" where
  "js_or v d =
     (case v of JUndefined \<Rightarrow> JNumber d
              | JNumber n \<Rightarrow> if n = 0 then JNumber d else JNumber n
              | JObject \<Rightarrow> JObject)"

text \<open>Numbers that may be \<open>NaN\<close> (\<open>None\<close>): \<open>v - n\<close>, \<open>Math.max\<close>, \<open>Math.min\<close>, \<open>x > 0\<close>.\<close>

definition js_minus :: "jsval \<Rightarrow> int \<Rightarrow> int option" where
  "js_minus v n = (case v of JNumber m \<Rightarrow> Some (m - n) | _ \<Rightarrow> None)"

definition Math_max :: "int \<Rightarrow> int option \<Rightarrow> int option" where
  "Math_max a x = (case x of None \<Rightarrow> None | Some b \<Rightarrow> Some (max a b))"

definition Math_min :: "int option \<Rightarrow> int \<Rightarrow> int option" where
  "Math_min x b = (case x of None \<Rightarrow> None | Some a \<Rightarrow> Some (min a b))"

section \<open>createOrder: routes/orders.js POST / and createOrderAutomation\<close>

text \<open>\<open>const states = requested_states || ['CA', 'NY', 'TX', 'FL', 'IL']\<close>: an array, also
  the empty one, is truthy.\<close>

definition default_states :: "string list" where
  "default_states = [''CA'', ''NY'', ''TX'', ''FL'', ''IL'']"

definition effective_states :: "string list option \<Rightarrow> string list" where
  "effective_states requested_states =
     (case requested_states of None \<Rightarrow> default_states | Some xs \<Rightarrow> xs)"

text \<open>The inner loop \<open>for (const lead of leadsResult.rows)\<close>.\<close>

fun assign_leads :: "order_row option \<Rightarrow> lead list \<Rightarrow> lead list \<Rightarrow> lead list tx" where
  "assign_leads ord [] assignedLeads = ret assignedLeads"
| "assign_leads ord (l # rows) assignedLeads =
     (case ord of
        None \<Rightarrow> throw TypeError
      | Some r \<Rightarrow>
          await (query (sql_assign_lead (oid r) (lead_id l)))
            (\<lambda>_. assign_leads ord rows
                    (assignedLeads @ [l\<lparr>status := Assigned, order_id := Some (oid r)\<rparr>])))"

text \<open>The body of \<open>for (const state of states)\<close>.\<close>

definition assign_state ::
  "order_row option \<Rightarrow> (string \<times> int) list \<Rightarrow> string \<Rightarrow> lead list \<Rightarrow> lead list tx" where
  "assign_state ord stateCaps st assignedLeads =
     (let maxLeads = js_or (js_get stateCaps st) 10 in
      await (query (sql_count_assigned st)) (\<lambda>currentCount.
        let availableSlots = Math_max 0 (js_minus maxLeads currentCount);
            leadsToAssign = Math_min availableSlots 5
        in case leadsToAssign of
             None \<Rightarrow> ret assignedLeads
           | Some n \<Rightarrow>
               if n > 0
               then await (query (sql_select_oldest_unassigned st n))
                      (\<lambda>rows. assign_leads ord rows assignedLeads)
               else ret assignedLeads))"

fun assign_states ::
  "order_row option \<Rightarrow> (string \<times> int) list \<Rightarrow> string list \<Rightarrow> lead list \<Rightarrow> lead list tx" where
  "assign_states ord stateCaps [] assignedLeads = ret assignedLeads"
| "assign_states ord stateCaps (st # rest) assignedLeads =
     await (assign_state ord stateCaps st assignedLeads)
       (\<lambda>assignedLeads'. assign_states ord stateCaps rest assignedLeads')"

text \<open>The transaction callback shared by the route handler and the automation command.\<close>

definition create_order_callback ::
  "string \<Rightarrow> string \<Rightarrow> string list option \<Rightarrow> (order_row option \<times> lead list) tx" where
  "create_order_callback cname cemail requested_states =
     await (query (sql_insert_order cname cemail)) (\<lambda>lastID.
     await (query (sql_select_order lastID)) (\<lambda>createdOrder.
       let ord = (case createdOrder of [] \<Rightarrow> None | r # _ \<Rightarrow> Some r) in
       await (query sql_select_caps) (\<lambda>capsResult.
       await (assign_states ord capsResult (effective_states requested_states) [])
         (\<lambda>assignedLeads. ret (ord, assignedLeads)))))"

definition createOrder ::
  "string \<Rightarrow> string \<Rightarrow> string list option \<Rightarrow> (order_row option \<times> lead list) tx" where
  "createOrder cname cemail requested_states =
     (if cname = [] \<or> cemail = [] then throw ValidationError
      else transaction (create_order_callback cname cemail requested_states))"

definition createOrderAutomation ::
  "string \<Rightarrow> string \<Rightarrow> string list option \<Rightarrow> (order_row option \<times> lead list) tx" where
  "createOrderAutomation cname cemail requested_states =
     (if cname = [] \<or> cemail = [] then throw ValidationError
      else transaction (create_order_callback cname cemail requested_states))"

section \<open>fulfill, cancel and delete\<close>

text \<open>PATCH /:id/fulfill.\<close>

definition fulfillOrder :: "nat \<Rightarrow> order_row option tx" where
  "fulfillOrder i =
     transaction
       (await (query (sql_select_order i)) (\<lambda>orderResult.
          case orderResult of
            [] \<Rightarrow> throw NotFound
          | r # _ \<Rightarrow>
              if ostatus r = OrderFulfilled then throw AlreadyFulfilled
              else await (query (sql_fulfill_order i)) (\<lambda>_.
                   await (query (sql_fulfill_leads i)) (\<lambda>_.
                   await (query (sql_select_order i)) (\<lambda>updatedOrder.
                     ret (case updatedOrder of [] \<Rightarrow> None | u # _ \<Rightarrow> Some u))))))"

datatype message =
    OrderFulfilledSuccessfully nat
  | OrderAlreadyFulfilled order_row
  | OrderCancelled nat
  | OrderAlreadyCancelled order_row
  | OrderDeleted "nat option"

text \<open>The automation command \<open>fulfill_order\<close>; \<open>!orderId\<close> holds for a missing id and for 0.\<close>

definition fulfillOrderAutomation :: "nat \<Rightarrow> message tx" where
  "fulfillOrderAutomation orderId =
     (if orderId = 0 then throw ValidationError
      else transaction
        (await (query (sql_select_order orderId)) (\<lambda>orderResult.
           case orderResult of
             [] \<Rightarrow> throw NotFound
           | r # _ \<Rightarrow>
               if ostatus r = OrderFulfilled then throw AlreadyFulfilled
               else await (query (sql_fulfill_order orderId)) (\<lambda>_.
                    await (query (sql_fulfill_leads orderId)) (\<lambda>_.
                      ret (OrderFulfilledSuccessfully orderId))))))"

text \<open>\<open>String.prototype.toLowerCase\<close> on the ASCII letters.\<close>

definition lower_char :: "char \<Rightarrow> char" where
  "lower_char ch =
     (let n = (of_char ch :: nat) in if 65 \<le> n \<and> n \<le> 90 then char_of (n + 32) else ch)"

definition toLowerCase :: "string \<Rightarrow> string" where
  "toLowerCase s = map lower_char s"

text \<open>The automation command \<open>one_time_rule\<close>: every rejection of the transaction is
  rethrown as "One Time rule execution failed: ...".\<close>

definition one_time_rule_callback :: "nat \<Rightarrow> string \<Rightarrow> message tx" where
  "one_time_rule_callback orderId action =
     await (query (sql_select_order orderId)) (\<lambda>orderResult.
       case orderResult of
         [] \<Rightarrow> throw NotFound
       | r # _ \<Rightarrow>
           if toLowerCase action = ''fulfill'' then
             (if ostatus r = OrderFulfilled then ret (OrderAlreadyFulfilled r)
              else await (query (sql_fulfill_order orderId)) (\<lambda>_.
                   await (query (sql_fulfill_leads orderId)) (\<lambda>_.
                     ret (OrderFulfilledSuccessfully orderId))))
           else if toLowerCase action = ''cancel'' then
             (if ostatus r = Cancelled then ret (OrderAlreadyCancelled r)
              else await (query (sql_cancel_order orderId)) (\<lambda>_.
                   await (query (sql_release_leads orderId)) (\<lambda>_.
                     ret (OrderCancelled orderId))))
           else throw InvalidAction)"

definition executeOneTimeRule :: "nat \<Rightarrow> string \<Rightarrow> message tx" where
  "executeOneTimeRule orderId action c =
     (if orderId = 0 \<or> action = [] then (Inl ValidationError, c)
      else case transaction (one_time_rule_callback orderId action) c of
             (Inl e, c') \<Rightarrow> (Inl (OneTimeRuleFailed e), c')
           | (Inr result, c') \<Rightarrow> (Inr result, c'))"

text \<open>DELETE /:id and the automation command \<open>delete_order\<close>: the same callback up to the
  object it returns, which carries the \<open>orderId\<close> in the automation command.\<close>

definition delete_order_callback :: "nat \<Rightarrow> message \<Rightarrow> message tx" where
  "delete_order_callback i result =
     await (query (sql_select_order i)) (\<lambda>orderResult.
       case orderResult of
         [] \<Rightarrow> throw NotFound
       | _ # _ \<Rightarrow>
           await (query (sql_release_leads i)) (\<lambda>_.
           await (query (sql_delete_order i)) (\<lambda>_. ret result)))"

definition deleteOrder :: "nat \<Rightarrow> message tx" where
  "deleteOrder i = transaction (delete_order_callback i (OrderDeleted None))"

definition deleteOrderAutomation :: "nat \<Rightarrow> message tx" where
  "deleteOrderAutomation orderId =
     (if orderId = 0 then throw ValidationError
      else transaction (delete_order_callback orderId (OrderDeleted (Some orderId))))"

section \<open>updateLeadStatus: routes/leads.js PATCH /:id/status\<close>

text \<open>\<open>['unassigned', 'assigned', 'fulfilled'].includes(status)\<close>\<close>

definition parse_status :: "string \<Rightarrow> lead_status option" where
  "parse_status s =
     (if s = ''unassigned'' then Some Unassigned
      else if s = ''assigned'' then Some Assigned
      else if s = ''fulfilled'' then Some Fulfilled
      else None)"

definition updateLeadStatus :: "nat \<Rightarrow> string \<Rightarrow> lead option tx" where
  "updateLeadStatus lid s =
     (case parse_status s of
        None \<Rightarrow> throw InvalidStatus
      | Some st \<Rightarrow>
          await (query (sql_set_lead_status st lid)) (\<lambda>rowCount.
            if rowCount = 0 then throw NotFound
            else await (query (sql_select_lead lid)) (\<lambda>updatedLead.
                   ret (case updatedLead of [] \<Rightarrow> None | l # _ \<Rightarrow> Some l))))"

section \<open>Stores used as concrete inputs\<close>

text \<open>
  The sample data that \<open>createTables\<close> inserts: ten unassigned leads, two per state, all
  created at the same second \<open>t0\<close>, and a cap of 10 for each of the five states.
\<close>

definition sample_lead :: "nat \<Rightarrow> string \<Rightarrow> string \<Rightarrow> string \<Rightarrow> string \<Rightarrow> nat \<Rightarrow> lead" where
  "sample_lead i n e p st t0 =
     \<lparr>lead_id = i, name = n, email = e, phone = Some p, state = st, status = Unassigned,
      order_id = None, created_at = t0, updated_at = t0\<rparr>"

definition seed_tables :: "nat \<Rightarrow> tables" where
  "seed_tables t0 =
     \<lparr>leads =
        [sample_lead 1 ''John Smith'' ''john.smith@email.com'' ''555-0101'' ''CA'' t0,
         sample_lead 2 ''Jane Doe'' ''jane.doe@email.com'' ''555-0102'' ''CA'' t0,
         sample_lead 3 ''Bob Johnson'' ''bob.johnson@email.com'' ''555-0103'' ''NY'' t0,
         sample_lead 4 ''Alice Brown'' ''alice.brown@email.com'' ''555-0104'' ''NY'' t0,
         sample_lead 5 ''Charlie Wilson'' ''charlie.wilson@email.com'' ''555-0105'' ''TX'' t0,
         sample_lead 6 ''Diana Davis'' ''diana.davis@email.com'' ''555-0106'' ''TX'' t0,
         sample_lead 7 ''Eve Miller'' ''eve.miller@email.com'' ''555-0107'' ''FL'' t0,
         sample_lead 8 ''Frank Garcia'' ''frank.garcia@email.com'' ''555-0108'' ''FL'' t0,
         sample_lead 9 ''Grace Lee'' ''grace.lee@email.com'' ''555-0109'' ''IL'' t0,
         sample_lead 10 ''Henry Taylor'' ''henry.taylor@email.com'' ''555-0110'' ''IL'' t0],
      orders = [],
      state_caps = [(''CA'', 10), (''NY'', 10), (''TX'', 10), (''FL'', 10), (''IL'', 10)],
      orders_seq = 0\<rparr>"

text \<open>A store with three unassigned CA leads created at times 1, 2 and 3, and the cap
  of CA as a parameter.\<close>

definition ca_tables :: "int \<Rightarrow> tables" where
  "ca_tables cap =
     \<lparr>leads =
        [(sample_lead 1 ''L1'' ''l1@email.com'' ''555-0001'' ''CA'' 1),
         (sample_lead 2 ''L2'' ''l2@email.com'' ''555-0002'' ''CA'' 2),
         (sample_lead 3 ''L3'' ''l3@email.com'' ''555-0003'' ''CA'' 3)],
      orders = [],
      state_caps = [(''CA'', cap)],
      orders_seq = 0\<rparr>"

text \<open>A connection with no open transaction, at time \<open>t\<close>, with fault plan \<open>f\<close>.\<close>

definition connect :: "tables \<Rightarrow> nat \<Rightarrow> bool list \<Rightarrow> conn" where
  "connect t t0 f = \<lparr>db = t, saved = None, now = t0, faults = f\<rparr>"

text \<open>The store after an order for CA was created and fulfilled, and the store after
  the same order was cancelled by the one-time rule.\<close>

definition ann_order :: order_row where
  "ann_order =
     \<lparr>oid = 1, customer_name = ''Ann'', customer_email = ''ann@email.com'', ostatus = Pending,
      ocreated_at = 9, oupdated_at = 9, fulfilled_at = None\<rparr>"

definition pending_store :: conn where
  "pending_store =
     snd (createOrder ''Ann'' ''ann@email.com'' (Some [''CA'']) (connect (ca_tables 2) 9 []))"

definition fulfilled_store :: conn where
  "fulfilled_store =
     snd (fulfillOrder 1
       (snd (createOrder ''Ann'' ''ann@email.com'' (Some [''CA''])
              (connect (ca_tables 2) 9 []))))"

definition cancelled_store :: conn where
  "cancelled_store =
     snd (executeOneTimeRule 1 ''cancel''
       (snd (createOrder ''Ann'' ''ann@email.com'' (Some [''CA''])
              (connect (ca_tables 2) 9 []))))"

text \<open>The connection after a createOrder for CA whose ninth statement, the \<open>COMMIT\<close>, the
  storage layer rejected.\<close>

definition after_failed_commit :: conn where
  "after_failed_commit =
     snd (createOrder ''Ann'' ''ann@email.com'' (Some [''CA''])
            (connect (ca_tables 2) 9 (replicate 8 False @ [True])))"

text \<open>The connections of a round trip in the store with CA cap 2: after createOrder for
  CA at time 9, after deleting the created order at time 10, and after the same
  createOrder call again at time 11.\<close>

definition round_trip_created :: conn where
  "round_trip_created =
     snd (createOrder ''Ann'' ''ann@email.com'' (Some [''CA'']) (connect (ca_tables 2) 9 []))"

definition round_trip_deleted :: conn where
  "round_trip_deleted = snd (deleteOrder 1 (round_trip_created\<lparr>now := 10\<rparr>))"

definition round_trip_recreated :: conn where
  "round_trip_recreated =
     snd (createOrder ''Ann'' ''ann@email.com'' (Some [''CA'']) (round_trip_deleted\<lparr>now := 11\<rparr>))"

section \<open>Notions used in the statements and proofs\<close>

text \<open>A computation that leaves the transaction snapshot alone.\<close>

definition frame :: "'a tx \<Rightarrow> bool" where
  "frame m \<longleftrightarrow> (\<forall>c. saved (snd (m c)) = saved c)"

text \<open>The identifiers of the leads a createOrder call returned (none when it failed).\<close>

definition assigned_ids :: "(error + order_row option \<times> lead list) \<times> conn \<Rightarrow> nat list" where
  "assigned_ids res = (case fst res of Inl _ \<Rightarrow> [] | Inr (_, ls) \<Rightarrow> map lead_id ls)"

text \<open>The number of leads of a region that are Assigned.\<close>

definition assigned_count :: "tables \<Rightarrow> string \<Rightarrow> nat" where
  "assigned_count t R = length (filter (\<lambda>l. state l = R \<and> status l = Assigned) (leads t))"

text \<open>The cap of a region as the specification words it: the configured \<open>max_leads\<close>
  entry, or 10 when the region has no entry.\<close>

definition spec_cap :: "(string \<times> int) list \<Rightarrow> string \<Rightarrow> int" where
  "spec_cap caps R = (case map_of (rev caps) R of Some n \<Rightarrow> n | None \<Rightarrow> 10)"

text \<open>
  What one pass of the allocation loop computes when no statement is rejected, written
  on the lead table alone; lemma \<open>assign_state_ok\<close> proves that \<open>assign_state\<close>
  computes exactly this. \<open>pool\<close> is the result of the WHERE clause of the selection,
  \<open>to_assign\<close> is \<open>leadsToAssign\<close>, \<open>selected\<close> the rows that the LIMIT leaves,
  \<open>assigned_row\<close> the row after the UPDATE, \<open>pushed_lead\<close> the object pushed onto
  \<open>assignedLeads\<close>.
\<close>

definition assigned_row :: "nat \<Rightarrow> nat \<Rightarrow> lead \<Rightarrow> lead" where
  "assigned_row oi t0 l = l\<lparr>status := Assigned, order_id := Some oi, updated_at := t0\<rparr>"

definition pushed_lead :: "nat \<Rightarrow> lead \<Rightarrow> lead" where
  "pushed_lead oi l = l\<lparr>status := Assigned, order_id := Some oi\<rparr>"

definition assign_rows :: "nat \<Rightarrow> nat \<Rightarrow> nat set \<Rightarrow> lead list \<Rightarrow> lead list" where
  "assign_rows oi t0 ids ls = map (\<lambda>l. if lead_id l \<in> ids then assigned_row oi t0 l else l) ls"

definition set_leads :: "lead list \<Rightarrow> conn \<Rightarrow> conn" where
  "set_leads ls c = c\<lparr>db := (db c)\<lparr>leads := ls\<rparr>\<rparr>"

definition pool :: "string \<Rightarrow> lead list \<Rightarrow> lead list" where
  "pool st ls = filter (\<lambda>l. state l = st \<and> status l = Unassigned) ls"

definition to_assign :: "(string \<times> int) list \<Rightarrow> string \<Rightarrow> lead list \<Rightarrow> int option" where
  "to_assign caps st ls =
     Math_min (Math_max 0 (js_minus (js_or (js_get caps st) 10)
        (int (length (filter (\<lambda>l. state l = st \<and> status l = Assigned) ls))))) 5"

definition selected :: "(string \<times> int) list \<Rightarrow> string \<Rightarrow> lead list \<Rightarrow> lead list" where
  "selected caps st ls =
     (case to_assign caps st ls of
        None \<Rightarrow> []
      | Some n \<Rightarrow> take (nat n) (sort_key created_at (pool st ls)))"

definition pass ::
  "nat \<Rightarrow> nat \<Rightarrow> (string \<times> int) list \<Rightarrow> string \<Rightarrow> lead list \<times> lead list
     \<Rightarrow> lead list \<times> lead list" where
  "pass oi t0 caps st al =
     (fst al @ map (pushed_lead oi) (selected caps st (snd al)),
      assign_rows oi t0 (lead_id ` set (selected caps st (snd al))) (snd al))"

text \<open>
  Loop invariants of the allocation loop, relating the lead table \<open>ls0\<close> at the start
  of createOrder to the table and the \<open>assignedLeads\<close> array after some passes: a row
  is as it was or was Unassigned and is now assigned to the order; the returned leads
  have distinct ids, come from rows that were Unassigned, and are Assigned in the table.
\<close>

definition touched :: "nat \<Rightarrow> nat \<Rightarrow> lead \<Rightarrow> lead \<Rightarrow> bool" where
  "touched oi t0 l0 l \<longleftrightarrow> l = l0 \<or> (status l0 = Unassigned \<and> l = assigned_row oi t0 l0)"

definition returned_ok :: "nat \<Rightarrow> lead list \<Rightarrow> lead list \<Rightarrow> lead list \<Rightarrow> bool" where
  "returned_ok oi ls0 acc ls \<longleftrightarrow>
     distinct (map lead_id acc)
     \<and> (\<forall>a \<in> set acc.
          (\<exists>l0 \<in> set ls0. status l0 = Unassigned \<and> a = pushed_lead oi l0)
          \<and> (\<forall>l \<in> set ls. lead_id l = lead_id a \<longrightarrow> status l = Assigned))"

text \<open>
  Two rows that the allocation loop cannot tell apart: the selection reads the id, the
  state, the status and the created timestamp of a lead and nothing else.
\<close>

definition same_pool :: "lead \<Rightarrow> lead \<Rightarrow> bool" where
  "same_pool l l' \<longleftrightarrow>
     lead_id l = lead_id l' \<and> state l = state l' \<and> status l = status l'
     \<and> created_at l = created_at l'"

text \<open>Integrity of the references: a lead references only an order id that the
  AUTOINCREMENT sequence has already issued.\<close>

definition refs_issued :: "tables \<Rightarrow> bool" where
  "refs_issued t \<longleftrightarrow> (\<forall>l\<in>set (leads t). \<forall>i. order_id l = Some i \<longrightarrow> i \<le> orders_seq t)"

text \<open>The rowid that AUTOINCREMENT gives the next order, and the row that the INSERT of
  createOrder adds.\<close>

definition new_order_id :: "tables \<Rightarrow> nat" where
  "new_order_id t = Suc (fold max (map oid (orders t)) (orders_seq t))"

definition new_order_row :: "string \<Rightarrow> string \<Rightarrow> nat \<Rightarrow> tables \<Rightarrow> order_row" where
  "new_order_row cname cemail t0 t =
     \<lparr>oid = new_order_id t, customer_name = cname, customer_email = cemail,
      ostatus = Pending, ocreated_at = t0, oupdated_at = t0, fulfilled_at = None\<rparr>"

section \<open>Rollback: a rejected transaction restores the snapshot\<close>

lemma frame_ret: "frame (ret x)"
  by (simp add: frame_def ret_def)

lemma frame_throw: "frame (throw e)"
  by (simp add: frame_def throw_def)

lemma frame_query: "frame (query stmt)"
  by (auto simp: frame_def query_def accept_def split: list.splits bool.splits prod.splits)

lemma frame_await: "frame m \<Longrightarrow> (\<And>x. frame (k x)) \<Longrightarrow> frame (await m k)"
  unfolding frame_def await_def
  by (auto split: prod.splits sum.splits) (metis snd_conv)+

lemma frame_assign_leads: "frame (assign_leads ord rows acc)"
proof (induction rows arbitrary: acc)
  case Nil
  show ?case by (simp add: frame_ret)
next
  case (Cons l rows)
  then show ?case
    by (cases ord) (auto intro!: frame_throw frame_await frame_query)
qed

lemma frame_assign_state: "frame (assign_state ord caps st acc)"
  unfolding assign_state_def Let_def
  by (intro frame_await frame_query)
     (auto split: option.splits intro!: frame_ret frame_await frame_query frame_assign_leads)

lemma frame_assign_states: "frame (assign_states ord caps sts acc)"
  by (induction sts arbitrary: acc)
     (simp_all add: frame_ret frame_await frame_assign_state)

lemma frame_create_order_callback: "frame (create_order_callback n e rs)"
  unfolding create_order_callback_def Let_def
  by (intro frame_await frame_query frame_assign_states frame_ret)

lemma frame_delete_order_callback: "frame (delete_order_callback i m)"
  unfolding delete_order_callback_def
  by (intro frame_await frame_query)
     (auto split: list.splits intro!: frame_throw frame_await frame_query frame_ret)

lemma frame_one_time_rule_callback: "frame (one_time_rule_callback i a)"
  unfolding one_time_rule_callback_def
  by (intro frame_await frame_query)
     (auto split: list.splits intro!: frame_throw frame_await frame_query frame_ret)

lemma frame_fulfill_callback:
  "frame (await (query (sql_select_order i)) (\<lambda>orderResult.
          case orderResult of
            [] \<Rightarrow> throw NotFound
          | r # _ \<Rightarrow>
              if ostatus r = OrderFulfilled then throw AlreadyFulfilled
              else await (query (sql_fulfill_order i)) (\<lambda>_.
                   await (query (sql_fulfill_leads i)) (\<lambda>_.
                   await (query (sql_select_order i)) (\<lambda>updatedOrder.
                     ret (case updatedOrder of [] \<Rightarrow> None | u # _ \<Rightarrow> Some u))))))"
  by (intro frame_await frame_query)
     (auto split: list.splits intro!: frame_throw frame_await frame_query frame_ret)

lemma frame_fulfill_automation_callback:
  "frame (await (query (sql_select_order i)) (\<lambda>orderResult.
           case orderResult of
             [] \<Rightarrow> throw NotFound
           | r # _ \<Rightarrow>
               if ostatus r = OrderFulfilled then throw AlreadyFulfilled
               else await (query (sql_fulfill_order i)) (\<lambda>_.
                    await (query (sql_fulfill_leads i)) (\<lambda>_.
                      ret (OrderFulfilledSuccessfully i)))))"
  by (intro frame_await frame_query)
     (auto split: list.splits intro!: frame_throw frame_await frame_query frame_ret)

lemma accept_frame: "saved (snd (accept c)) = saved c" "db (snd (accept c)) = db c"
  by (simp_all add: accept_def split: list.splits)

text \<open>
  What the wrapper does achieve: when \<open>BEGIN\<close> is accepted with no transaction open,
  the callback rejects and \<open>ROLLBACK\<close> is accepted, the call is rejected with the
  error of the callback and the tables are those from before the call.
\<close>

lemma transaction_rolls_back:
  assumes "frame cb" and "saved c = None" and "fst (accept c)"
    and "cb (begin_transaction c) = (Inl e, c1)" and "fst (accept c1)"
  shows "fst (transaction cb c) = Inl e"
    and "db (snd (transaction cb c)) = db c"
    and "saved (snd (transaction cb c)) = None"
proof -
  have b: "saved (begin_transaction c) = Some (db c)"
    using assms(2,3) accept_frame [of c]
    by (cases "accept c") (simp add: begin_transaction_def)
  have "saved c1 = saved (begin_transaction c)"
    using assms(1,4) unfolding frame_def by (metis snd_conv)
  then have sv: "saved (snd (accept c1)) = Some (db c)"
    using b by (simp add: accept_frame)
  have run: "transaction cb c = rollback e c1"
    using assms(4) by (simp add: transaction_def)
  show "fst (transaction cb c) = Inl e" "db (snd (transaction cb c)) = db c"
    "saved (snd (transaction cb c)) = None"
    using sv assms(5) unfolding run
    by (cases "accept c1"; simp add: rollback_def)+
qed

text \<open>
  C6 where the wrapper does not achieve it. createOrder for CA runs nine statements on
  the store with three Unassigned CA leads and cap 2: \<open>BEGIN\<close>, the INSERT, four
  SELECTs (the created order, the caps, the count of Assigned leads, the oldest
  Unassigned leads), the two UPDATEs, \<open>COMMIT\<close>. When the storage layer rejects
  the ninth, the \<open>COMMIT\<close>, the call fails with a storage error, and no \<open>ROLLBACK\<close> is
  sent: the order row and both assignments stay in the transaction, which stays open,
  and every later statement on the connection sees them. The next call, here
  fulfillOrder on the order whose creation failed, finds the order, and its \<open>COMMIT\<close>
  makes the writes of both calls permanent. (When instead the eighth statement, the
  second UPDATE, is rejected, \<open>ROLLBACK\<close> restores the tables.)
\<close>

theorem failed_commit_keeps_writes:
  "db (connect (ca_tables 2) 9 (replicate 8 False @ [True])) = ca_tables 2
   \<and> saved (connect (ca_tables 2) 9 (replicate 8 False @ [True])) = None
   \<and> fst (createOrder ''Ann'' ''ann@email.com'' (Some [''CA''])
            (connect (ca_tables 2) 9 (replicate 8 False @ [True]))) = Inl StorageError
   \<and> after_failed_commit
       = snd (createOrder ''Ann'' ''ann@email.com'' (Some [''CA''])
                (connect (ca_tables 2) 9 (replicate 8 False @ [True])))
   \<and> orders (db after_failed_commit) = [ann_order]
   \<and> map status (leads (db after_failed_commit)) = [Assigned, Assigned, Unassigned]
   \<and> map order_id (leads (db after_failed_commit)) = [Some 1, Some 1, None]
   \<and> db after_failed_commit \<noteq> ca_tables 2
   \<and> saved after_failed_commit = Some (ca_tables 2)
   \<and> faults after_failed_commit = []
   \<and> \<not> isl (fst (fulfillOrder 1 after_failed_commit))
   \<and> saved (snd (fulfillOrder 1 after_failed_commit)) = None
   \<and> map ostatus (orders (db (snd (fulfillOrder 1 after_failed_commit)))) = [OrderFulfilled]
   \<and> map status (leads (db (snd (fulfillOrder 1 after_failed_commit))))
       = [Fulfilled, Fulfilled, Unassigned]
   \<and> fst (createOrder ''Ann'' ''ann@email.com'' (Some [''CA''])
            (connect (ca_tables 2) 9 (replicate 7 False @ [True]))) = Inl StorageError
   \<and> db (snd (createOrder ''Ann'' ''ann@email.com'' (Some [''CA''])
               (connect (ca_tables 2) 9 (replicate 7 False @ [True])))) = ca_tables 2"
  by code_simp

section \<open>Runs without storage faults\<close>

lemma accept_ok: "faults c = [] \<Longrightarrow> accept c = (True, c)"
  by (simp add: accept_def)

lemma query_ok:
  "faults c = [] \<Longrightarrow>
     query stmt c = (Inr (fst (stmt (now c) (db c))), c\<lparr>db := snd (stmt (now c) (db c))\<rparr>)"
  by (simp add: query_def accept_ok split: prod.splits)

lemma begin_ok:
  "faults c = [] \<Longrightarrow> saved c = None \<Longrightarrow> begin_transaction c = c\<lparr>saved := Some (db c)\<rparr>"
  by (simp add: begin_transaction_def accept_ok)

lemma commit_ok:
  "faults c = [] \<Longrightarrow> saved c \<noteq> None \<Longrightarrow> commit x c = (Inr x, c\<lparr>saved := None\<rparr>)"
  by (simp add: commit_def accept_ok)

lemma rollback_ok:
  "faults c = [] \<Longrightarrow> saved c \<noteq> None \<Longrightarrow>
     rollback e c = (Inl e, c\<lparr>db := the (saved c), saved := None\<rparr>)"
  by (auto simp: rollback_def accept_ok)

lemma select_unique:
  "distinct (map f xs) \<Longrightarrow> r \<in> set xs \<Longrightarrow> filter (\<lambda>x. f x = f r) xs = [r]"
proof (induction xs)
  case Nil
  then show ?case by simp
next
  case (Cons x xs)
  show ?case
  proof (cases "x = r")
    case True
    have "\<forall>y\<in>set xs. f y \<noteq> f r"
      using Cons.prems(1) True by (metis distinct.simps(2) image_eqI list.simps(9) set_map)
    then have "filter (\<lambda>y. f y = f r) xs = []"
      by (simp add: filter_empty_conv)
    then show ?thesis using True by simp
  next
    case False
    then have "r \<in> set xs" using Cons.prems(2) by simp
    moreover have "f x \<noteq> f r"
      using Cons.prems(1) \<open>r \<in> set xs\<close> by auto
    ultimately show ?thesis using Cons by simp
  qed
qed

section \<open>The default region list\<close>

text \<open>
  C2, as the code has it. When the requested-regions argument is absent, the effective
  region list is CA, NY, TX, FL, IL and the allocation loop visits them in that order;
  when the argument is a sequence, the empty one included, the effective list is that
  sequence itself.
\<close>

theorem default_states_only_when_absent:
  "effective_states None = [''CA'', ''NY'', ''TX'', ''FL'', ''IL'']
   \<and> effective_states (Some xs) = xs
   \<and> createOrder n e None = createOrder n e (Some [''CA'', ''NY'', ''TX'', ''FL'', ''IL''])
   \<and> createOrderAutomation n e None
       = createOrderAutomation n e (Some [''CA'', ''NY'', ''TX'', ''FL'', ''IL''])
   \<and> assign_states ord caps (effective_states None) acc =
       await (assign_state ord caps ''CA'' acc) (\<lambda>a1.
       await (assign_state ord caps ''NY'' a1) (\<lambda>a2.
       await (assign_state ord caps ''TX'' a2) (\<lambda>a3.
       await (assign_state ord caps ''FL'' a3) (\<lambda>a4.
       await (assign_state ord caps ''IL'' a4) ret))))"
proof -
  have nil: "assign_states ord caps [] = ret"
    by (rule ext) simp
  have cons: "\<And>st rest. assign_states ord caps (st # rest)
      = (\<lambda>acc. await (assign_state ord caps st acc) (assign_states ord caps rest))"
    by (rule ext) simp
  show ?thesis
    by (simp add: effective_states_def default_states_def createOrder_def createOrderAutomation_def
          create_order_callback_def nil cons)
qed

text \<open>The claim as stated fails for the empty sequence: no region is visited, the order is
  created with no lead, and the ten unassigned sample leads stay as they are.\<close>

theorem empty_states_not_defaulted:
  "effective_states (Some []) = []
   \<and> effective_states (Some []) \<noteq> [''CA'', ''NY'', ''TX'', ''FL'', ''IL'']
   \<and> fst (createOrder ''Ann'' ''ann@email.com'' (Some []) (connect (seed_tables 0) 9 []))
       = Inr (Some \<lparr>oid = 1, customer_name = ''Ann'', customer_email = ''ann@email.com'',
                    ostatus = Pending, ocreated_at = 9, oupdated_at = 9, fulfilled_at = None\<rparr>, [])
   \<and> leads (db (snd (createOrder ''Ann'' ''ann@email.com'' (Some [])
                      (connect (seed_tables 0) 9 []))))
       = leads (seed_tables 0)"
  by code_simp

section \<open>Fulfilling a fulfilled order, cancelling a cancelled order\<close>

text \<open>
  C3, as the code has it. For an order whose status is Fulfilled (and no storage fault):
  the fulfill route and the \<open>fulfill_order\<close> command fail with AlreadyFulfilled, and the
  \<open>one_time_rule\<close> command with action fulfill resolves with the message "Order already
  fulfilled" and the order; all three leave every order and lead record unchanged.
\<close>

theorem fulfill_on_fulfilled_order:
  assumes "saved c = None" and "faults c = []"
    and "distinct (map oid (orders (db c)))"
    and "r \<in> set (orders (db c))" and "ostatus r = OrderFulfilled"
    and "oid r \<noteq> 0" and "toLowerCase a = ''fulfill''"
  shows "fulfillOrder (oid r) c = (Inl AlreadyFulfilled, c)
       \<and> fulfillOrderAutomation (oid r) c = (Inl AlreadyFulfilled, c)
       \<and> executeOneTimeRule (oid r) a c = (Inr (OrderAlreadyFulfilled r), c)"
proof -
  have sel: "filter (\<lambda>x. oid x = oid r) (orders (db c)) = [r]"
    using assms(3,4) by (rule select_unique)
  have a_ne: "a \<noteq> []"
    using assms(7) by (auto simp: toLowerCase_def)
  have 1: "fulfillOrder (oid r) c = (Inl AlreadyFulfilled, c)"
    using assms(1,2,5) sel
    by (simp add: fulfillOrder_def transaction_def begin_ok rollback_ok
          await_def query_ok sql_select_order_def throw_def)
  have 2: "fulfillOrderAutomation (oid r) c = (Inl AlreadyFulfilled, c)"
    using assms(1,2,5,6) sel
    by (simp add: fulfillOrderAutomation_def transaction_def begin_ok rollback_ok
          await_def query_ok sql_select_order_def throw_def)
  have 3: "executeOneTimeRule (oid r) a c = (Inr (OrderAlreadyFulfilled r), c)"
    using assms(1,2,5,6,7) sel a_ne
    by (simp add: executeOneTimeRule_def one_time_rule_callback_def transaction_def
          begin_ok commit_ok await_def query_ok sql_select_order_def ret_def)
  from 1 2 3 show ?thesis by simp
qed

theorem fulfill_on_fulfilled_order_witness:
  "saved fulfilled_store = None \<and> faults fulfilled_store = []
   \<and> distinct (map oid (orders (db fulfilled_store)))
   \<and> hd (orders (db fulfilled_store)) \<in> set (orders (db fulfilled_store))
   \<and> ostatus (hd (orders (db fulfilled_store))) = OrderFulfilled
   \<and> oid (hd (orders (db fulfilled_store))) = 1
   \<and> toLowerCase ''Fulfill'' = ''fulfill''
   \<and> fulfillOrder 1 fulfilled_store = (Inl AlreadyFulfilled, fulfilled_store)
   \<and> fulfillOrderAutomation 1 fulfilled_store = (Inl AlreadyFulfilled, fulfilled_store)
   \<and> executeOneTimeRule 1 ''Fulfill'' fulfilled_store
       = (Inr (OrderAlreadyFulfilled (hd (orders (db fulfilled_store)))), fulfilled_store)"
proof -
  have h1: "saved fulfilled_store = None" by code_simp
  have h2: "faults fulfilled_store = []" by code_simp
  have h3: "distinct (map oid (orders (db fulfilled_store)))" by code_simp
  have h4: "hd (orders (db fulfilled_store)) \<in> set (orders (db fulfilled_store))" by code_simp
  have h5: "ostatus (hd (orders (db fulfilled_store))) = OrderFulfilled" by code_simp
  have h6: "oid (hd (orders (db fulfilled_store))) = 1" by code_simp
  have h7: "toLowerCase ''Fulfill'' = ''fulfill''" by code_simp
  show ?thesis
    using fulfill_on_fulfilled_order [OF h1 h2 h3 h4 h5 _ h7] h1 h2 h3 h4 h5 h6 h7
    by simp
qed

text \<open>The claim as stated fails for the one-time rule: on the fulfilled order 1 the
  command does not fail, it resolves.\<close>

theorem one_time_rule_fulfill_resolves:
  "map ostatus (orders (db fulfilled_store)) = [OrderFulfilled]
   \<and> map oid (orders (db fulfilled_store)) = [1]
   \<and> fst (executeOneTimeRule 1 ''fulfill'' fulfilled_store)
       = Inr (OrderAlreadyFulfilled
               \<lparr>oid = 1, customer_name = ''Ann'', customer_email = ''ann@email.com'',
                ostatus = OrderFulfilled, ocreated_at = 9, oupdated_at = 9,
                fulfilled_at = Some 9\<rparr>)
   \<and> \<not> isl (fst (executeOneTimeRule 1 ''fulfill'' fulfilled_store))"
  by code_simp

lemma fulfill_on_fulfilled:
  assumes "filter (\<lambda>x. oid x = i) (orders (db c)) = r # rs" and "ostatus r = OrderFulfilled"
      and "saved c = None"
  shows "db (snd (fulfillOrder i c)) = db c"
    and "db (snd (fulfillOrderAutomation i c)) = db c"
    and "toLowerCase a = ''fulfill'' \<Longrightarrow> db (snd (executeOneTimeRule i a c)) = db c"
  using assms
  by (auto simp: fulfillOrder_def fulfillOrderAutomation_def executeOneTimeRule_def
         one_time_rule_callback_def transaction_def begin_transaction_def rollback_def commit_def
         await_def query_def accept_def sql_select_order_def throw_def ret_def
       split: list.splits bool.splits)

lemma cancel_on_cancelled:
  assumes "filter (\<lambda>x. oid x = i) (orders (db c)) = r # rs" and "ostatus r = Cancelled"
      and "saved c = None" and "toLowerCase a = ''cancel''"
  shows "db (snd (executeOneTimeRule i a c)) = db c"
  using assms
  by (auto simp: executeOneTimeRule_def one_time_rule_callback_def
         transaction_def begin_transaction_def rollback_def commit_def
         await_def query_def accept_def sql_select_order_def throw_def ret_def
       split: list.splits bool.splits)

text \<open>
  C4, as the code has it. Only the repeated transition is blocked: for an order whose
  status is Fulfilled every fulfill operation, and for an order whose status is
  Cancelled the cancel action of the one-time rule, leaves all tables as they were (so
  the order keeps its status), whatever the storage layer does.
\<close>

theorem repeated_transition_changes_nothing:
  assumes "saved c = None" and "distinct (map oid (orders (db c)))"
    and "r \<in> set (orders (db c))"
  shows "(ostatus r = OrderFulfilled \<longrightarrow>
            db (snd (fulfillOrder (oid r) c)) = db c
          \<and> db (snd (fulfillOrderAutomation (oid r) c)) = db c
          \<and> (toLowerCase a = ''fulfill'' \<longrightarrow> db (snd (executeOneTimeRule (oid r) a c)) = db c))
       \<and> (ostatus r = Cancelled \<longrightarrow> toLowerCase a = ''cancel'' \<longrightarrow>
            db (snd (executeOneTimeRule (oid r) a c)) = db c)"
proof -
  have sel: "filter (\<lambda>x. oid x = oid r) (orders (db c)) = [r]"
    using assms(2,3) by (rule select_unique)
  show ?thesis
    using fulfill_on_fulfilled [OF sel _ assms(1)] cancel_on_cancelled [OF sel _ assms(1)]
    by blast
qed

theorem repeated_transition_changes_nothing_witness:
  "saved fulfilled_store = None \<and> distinct (map oid (orders (db fulfilled_store)))
   \<and> hd (orders (db fulfilled_store)) \<in> set (orders (db fulfilled_store))
   \<and> ostatus (hd (orders (db fulfilled_store))) = OrderFulfilled
   \<and> oid (hd (orders (db fulfilled_store))) = 1
   \<and> toLowerCase ''fulfill'' = ''fulfill''
   \<and> db (snd (fulfillOrder 1 fulfilled_store)) = db fulfilled_store
   \<and> db (snd (fulfillOrderAutomation 1 fulfilled_store)) = db fulfilled_store
   \<and> db (snd (executeOneTimeRule 1 ''fulfill'' fulfilled_store)) = db fulfilled_store
   \<and> saved cancelled_store = None \<and> distinct (map oid (orders (db cancelled_store)))
   \<and> hd (orders (db cancelled_store)) \<in> set (orders (db cancelled_store))
   \<and> ostatus (hd (orders (db cancelled_store))) = Cancelled
   \<and> oid (hd (orders (db cancelled_store))) = 1
   \<and> toLowerCase ''cancel'' = ''cancel''
   \<and> db (snd (executeOneTimeRule 1 ''cancel'' cancelled_store)) = db cancelled_store"
proof -
  have f1: "saved fulfilled_store = None" by code_simp
  have f2: "distinct (map oid (orders (db fulfilled_store)))" by code_simp
  have f3: "hd (orders (db fulfilled_store)) \<in> set (orders (db fulfilled_store))" by code_simp
  have f4: "ostatus (hd (orders (db fulfilled_store))) = OrderFulfilled" by code_simp
  have f5: "oid (hd (orders (db fulfilled_store))) = 1" by code_simp
  have f6: "toLowerCase ''fulfill'' = ''fulfill''" by code_simp
  have c1: "saved cancelled_store = None" by code_simp
  have c2: "distinct (map oid (orders (db cancelled_store)))" by code_simp
  have c3: "hd (orders (db cancelled_store)) \<in> set (orders (db cancelled_store))" by code_simp
  have c4: "ostatus (hd (orders (db cancelled_store))) = Cancelled" by code_simp
  have c5: "oid (hd (orders (db cancelled_store))) = 1" by code_simp
  have c6: "toLowerCase ''cancel'' = ''cancel''" by code_simp
  show ?thesis
    using repeated_transition_changes_nothing [OF f1 f2 f3, of "''fulfill''"]
          repeated_transition_changes_nothing [OF c1 c2 c3, of "''cancel''"]
          f1 f2 f3 f4 f5 f6 c1 c2 c3 c4 c5 c6
    by simp
qed

text \<open>The claim as stated fails: the cancel action on the fulfilled order 1 sets it to
  Cancelled and returns its two leads to stock, and the fulfill route on the cancelled
  order 1 sets it to Fulfilled.\<close>

theorem cancel_leaves_fulfilled_state:
  "map ostatus (orders (db fulfilled_store)) = [OrderFulfilled]
   \<and> map oid (orders (db fulfilled_store)) = [1]
   \<and> map status (leads (db fulfilled_store)) = [Fulfilled, Fulfilled, Unassigned]
   \<and> map order_id (leads (db fulfilled_store)) = [Some 1, Some 1, None]
   \<and> fst (executeOneTimeRule 1 ''cancel'' fulfilled_store) = Inr (OrderCancelled 1)
   \<and> map ostatus (orders (db (snd (executeOneTimeRule 1 ''cancel'' fulfilled_store))))
       = [Cancelled]
   \<and> map status (leads (db (snd (executeOneTimeRule 1 ''cancel'' fulfilled_store))))
       = [Unassigned, Unassigned, Unassigned]
   \<and> map order_id (leads (db (snd (executeOneTimeRule 1 ''cancel'' fulfilled_store))))
       = [None, None, None]
   \<and> map ostatus (orders (db cancelled_store)) = [Cancelled]
   \<and> map ostatus (orders (db (snd (fulfillOrder 1 cancelled_store)))) = [OrderFulfilled]"
  by code_simp

section \<open>deleteOrder\<close>

lemma delete_missing:
  assumes "saved c = None" and "faults c = []" and "i \<notin> oid ` set (orders (db c))"
  shows "transaction (delete_order_callback i m) c = (Inl NotFound, c)"
proof -
  have "filter (\<lambda>r. oid r = i) (orders (db c)) = []"
    using assms(3) by (auto simp: filter_empty_conv)
  then show ?thesis
    using assms(1,2)
    by (simp add: delete_order_callback_def transaction_def begin_ok
          rollback_ok await_def query_ok sql_select_order_def throw_def)
qed

lemma delete_existing:
  assumes "saved c = None" and "faults c = []" and "i \<in> oid ` set (orders (db c))"
  shows "transaction (delete_order_callback i m) c =
           (Inr m,
            c\<lparr>db := (db c)\<lparr>leads := map (\<lambda>l. if order_id l = Some i
                                               then l\<lparr>status := Unassigned, order_id := None,
                                                      updated_at := now c\<rparr>
                                               else l) (leads (db c)),
                             orders := filter (\<lambda>r. oid r \<noteq> i) (orders (db c))\<rparr>\<rparr>)"
proof -
  have "filter (\<lambda>r. oid r = i) (orders (db c)) \<noteq> []"
    using assms(3) by (auto simp: filter_empty_conv)
  then obtain r rs where "filter (\<lambda>r. oid r = i) (orders (db c)) = r # rs"
    by (cases "filter (\<lambda>r. oid r = i) (orders (db c))") auto
  then show ?thesis
    using assms(1,2)
    by (simp add: delete_order_callback_def transaction_def begin_ok
          commit_ok await_def query_ok sql_select_order_def sql_release_leads_def
          sql_delete_order_def ret_def)
qed

lemmas deleteOrder_missing = delete_missing [where m = "OrderDeleted None", folded deleteOrder_def]

lemmas deleteOrder_existing = delete_existing [where m = "OrderDeleted None", folded deleteOrder_def]

text \<open>
  C7. deleteOrder on an existing order succeeds (no storage fault) and afterwards no lead
  references the order, every lead that referenced it is Unassigned with its reference
  cleared, every other lead is untouched, and the order row is gone while the other
  order rows stay; on an order that does not exist it fails with NotFound and changes
  nothing. The \<open>delete_order\<close> command is the same operation once its \<open>orderId\<close>
  parameter is present.
\<close>

theorem deleteOrder_postcondition:
  assumes "saved c = None" and "faults c = []"
  shows "(i \<in> oid ` set (orders (db c)) \<longrightarrow>
            fst (deleteOrder i c) = Inr (OrderDeleted None)
          \<and> (\<forall>l \<in> set (leads (db (snd (deleteOrder i c)))). order_id l \<noteq> Some i)
          \<and> length (leads (db (snd (deleteOrder i c)))) = length (leads (db c))
          \<and> (\<forall>k < length (leads (db c)).
                if order_id (leads (db c) ! k) = Some i
                then status (leads (db (snd (deleteOrder i c))) ! k) = Unassigned
                   \<and> order_id (leads (db (snd (deleteOrder i c))) ! k) = None
                   \<and> lead_id (leads (db (snd (deleteOrder i c))) ! k) = lead_id (leads (db c) ! k)
                else leads (db (snd (deleteOrder i c))) ! k = leads (db c) ! k)
          \<and> i \<notin> oid ` set (orders (db (snd (deleteOrder i c))))
          \<and> orders (db (snd (deleteOrder i c))) = filter (\<lambda>r. oid r \<noteq> i) (orders (db c)))
       \<and> (i \<notin> oid ` set (orders (db c)) \<longrightarrow> deleteOrder i c = (Inl NotFound, c))
       \<and> (i \<noteq> 0 \<longrightarrow>
            snd (deleteOrderAutomation i c) = snd (deleteOrder i c)
          \<and> fst (deleteOrderAutomation i c)
              = (case fst (deleteOrder i c) of
                   Inl err \<Rightarrow> Inl err
                 | Inr _ \<Rightarrow> Inr (OrderDeleted (Some i))))"
proof (intro conjI impI)
  assume ex: "i \<in> oid ` set (orders (db c))"
  note run = deleteOrder_existing [OF assms ex]
  show "fst (deleteOrder i c) = Inr (OrderDeleted None)" by (simp add: run)
  show "\<forall>l \<in> set (leads (db (snd (deleteOrder i c)))). order_id l \<noteq> Some i"
    by (auto simp: run)
  show "length (leads (db (snd (deleteOrder i c)))) = length (leads (db c))"
    by (simp add: run)
  show "\<forall>k < length (leads (db c)).
                if order_id (leads (db c) ! k) = Some i
                then status (leads (db (snd (deleteOrder i c))) ! k) = Unassigned
                   \<and> order_id (leads (db (snd (deleteOrder i c))) ! k) = None
                   \<and> lead_id (leads (db (snd (deleteOrder i c))) ! k) = lead_id (leads (db c) ! k)
                else leads (db (snd (deleteOrder i c))) ! k = leads (db c) ! k"
    by (simp add: run)
  show "i \<notin> oid ` set (orders (db (snd (deleteOrder i c))))"
    by (auto simp: run)
  show "orders (db (snd (deleteOrder i c))) = filter (\<lambda>r. oid r \<noteq> i) (orders (db c))"
    by (simp add: run)
next
  assume "i \<notin> oid ` set (orders (db c))"
  then show "deleteOrder i c = (Inl NotFound, c)"
    by (rule deleteOrder_missing [OF assms])
next
  assume nz: "i \<noteq> 0"
  have both: "snd (deleteOrderAutomation i c) = snd (deleteOrder i c)
      \<and> fst (deleteOrderAutomation i c)
          = (case fst (deleteOrder i c) of
               Inl err \<Rightarrow> Inl err
             | Inr _ \<Rightarrow> Inr (OrderDeleted (Some i)))"
  proof (cases "i \<in> oid ` set (orders (db c))")
    case True
    show ?thesis
      using nz
      by (simp add: deleteOrderAutomation_def deleteOrder_def delete_existing [OF assms True])
  next
    case False
    show ?thesis
      using nz
      by (simp add: deleteOrderAutomation_def deleteOrder_def delete_missing [OF assms False])
  qed
  from both show "snd (deleteOrderAutomation i c) = snd (deleteOrder i c)" by simp
  from both show "fst (deleteOrderAutomation i c)
          = (case fst (deleteOrder i c) of
               Inl err \<Rightarrow> Inl err
             | Inr _ \<Rightarrow> Inr (OrderDeleted (Some i)))" by simp
qed

theorem deleteOrder_postcondition_witness:
  "saved pending_store = None \<and> faults pending_store = []
   \<and> 1 \<in> oid ` set (orders (db pending_store))
   \<and> map order_id (leads (db pending_store)) = [Some 1, Some 1, None]
   \<and> fst (deleteOrder 1 pending_store) = Inr (OrderDeleted None)
   \<and> map order_id (leads (db (snd (deleteOrder 1 pending_store)))) = [None, None, None]
   \<and> map status (leads (db (snd (deleteOrder 1 pending_store))))
       = [Unassigned, Unassigned, Unassigned]
   \<and> orders (db (snd (deleteOrder 1 pending_store))) = []
   \<and> 9999 \<notin> oid ` set (orders (db pending_store))
   \<and> deleteOrder 9999 pending_store = (Inl NotFound, pending_store)
   \<and> snd (deleteOrderAutomation 1 pending_store) = snd (deleteOrder 1 pending_store)
   \<and> fst (deleteOrderAutomation 1 pending_store) = Inr (OrderDeleted (Some 1))"
proof -
  have h1: "saved pending_store = None" by code_simp
  have h2: "faults pending_store = []" by code_simp
  have h3: "1 \<in> oid ` set (orders (db pending_store))" by code_simp
  have h4: "9999 \<notin> oid ` set (orders (db pending_store))" by code_simp
  have e1: "map order_id (leads (db pending_store)) = [Some 1, Some 1, None]" by code_simp
  have e2: "map order_id (leads (db (snd (deleteOrder 1 pending_store)))) = [None, None, None]"
    by code_simp
  have e3: "map status (leads (db (snd (deleteOrder 1 pending_store))))
       = [Unassigned, Unassigned, Unassigned]"
    by code_simp
  have e4: "filter (\<lambda>r. oid r \<noteq> 1) (orders (db pending_store)) = []" by code_simp
  show ?thesis
    using deleteOrder_postcondition [OF h1 h2, of 1] deleteOrder_postcondition [OF h1 h2, of 9999]
          h1 h2 h3 h4 e1 e2 e3 e4
    by simp
qed

section \<open>updateLeadStatus\<close>

text \<open>
  C9. updateLeadStatus fails with InvalidStatus, changing nothing, when the requested
  status is not one of unassigned/assigned/fulfilled. Whatever the outcome, no lead's
  order reference is altered and the orders and caps are untouched; when it succeeds,
  the rows with the given id get the requested status and the current time as updated
  timestamp, and every other field and every other row is as before.
\<close>

theorem updateLeadStatus_frame:
  "(s \<notin> {''unassigned'', ''assigned'', ''fulfilled''} \<longrightarrow>
      updateLeadStatus lid s c = (Inl InvalidStatus, c))
   \<and> map order_id (leads (db (snd (updateLeadStatus lid s c)))) = map order_id (leads (db c))
   \<and> orders (db (snd (updateLeadStatus lid s c))) = orders (db c)
   \<and> state_caps (db (snd (updateLeadStatus lid s c))) = state_caps (db c)
   \<and> orders_seq (db (snd (updateLeadStatus lid s c))) = orders_seq (db c)
   \<and> (\<not> isl (fst (updateLeadStatus lid s c)) \<longrightarrow>
        (\<exists>st. parse_status s = Some st
           \<and> length (leads (db (snd (updateLeadStatus lid s c)))) = length (leads (db c))
           \<and> (\<forall>k < length (leads (db c)).
                 leads (db (snd (updateLeadStatus lid s c))) ! k =
                   (if lead_id (leads (db c) ! k) = lid
                    then (leads (db c) ! k)\<lparr>status := st, updated_at := now c\<rparr>
                    else leads (db c) ! k))))"
proof -
  have upd: "map order_id
               (map (\<lambda>l. if lead_id l = lid then l\<lparr>status := st, updated_at := t\<rparr> else l) ls)
      = map order_id ls" for st t and ls :: "lead list"
    by (induction ls) auto
  show ?thesis
  proof (cases "parse_status s")
    case None
    then show ?thesis
      by (auto simp: updateLeadStatus_def throw_def parse_status_def split: if_splits)
  next
    case (Some st)
    then have valid: "\<not> s \<notin> {''unassigned'', ''assigned'', ''fulfilled''}"
      by (auto simp: parse_status_def split: if_splits)
    show ?thesis
      using Some valid upd [where st = st and t = "now c" and ls = "leads (db c)"]
      by (auto simp: updateLeadStatus_def await_def query_def accept_def sql_set_lead_status_def
                 sql_select_lead_def throw_def ret_def split: list.splits bool.splits)
  qed
qed

theorem updateLeadStatus_frame_witness:
  "''sold'' \<notin> {''unassigned'', ''assigned'', ''fulfilled''}
   \<and> updateLeadStatus 1 ''sold'' fulfilled_store = (Inl InvalidStatus, fulfilled_store)
   \<and> \<not> isl (fst (updateLeadStatus 1 ''unassigned'' fulfilled_store))
   \<and> parse_status ''unassigned'' = Some Unassigned
   \<and> map ostatus (orders (db fulfilled_store)) = [OrderFulfilled]
   \<and> map status (leads (db fulfilled_store)) = [Fulfilled, Fulfilled, Unassigned]
   \<and> map order_id (leads (db fulfilled_store)) = [Some 1, Some 1, None]
   \<and> map status (leads (db (snd (updateLeadStatus 1 ''unassigned'' fulfilled_store))))
       = [Unassigned, Fulfilled, Unassigned]
   \<and> map order_id (leads (db (snd (updateLeadStatus 1 ''unassigned'' fulfilled_store))))
       = [Some 1, Some 1, None]
   \<and> orders (db (snd (updateLeadStatus 1 ''unassigned'' fulfilled_store)))
       = orders (db fulfilled_store)"
proof -
  have h1: "''sold'' \<notin> {''unassigned'', ''assigned'', ''fulfilled''}" by simp
  have h2: "\<not> isl (fst (updateLeadStatus 1 ''unassigned'' fulfilled_store))" by code_simp
  have e1: "parse_status ''unassigned'' = Some Unassigned" by code_simp
  have e2: "map ostatus (orders (db fulfilled_store)) = [OrderFulfilled]" by code_simp
  have e3: "map status (leads (db fulfilled_store)) = [Fulfilled, Fulfilled, Unassigned]"
    by code_simp
  have e4: "map order_id (leads (db fulfilled_store)) = [Some 1, Some 1, None]" by code_simp
  have e5: "map status (leads (db (snd (updateLeadStatus 1 ''unassigned'' fulfilled_store))))
       = [Unassigned, Fulfilled, Unassigned]"
    by code_simp
  show ?thesis
    using updateLeadStatus_frame [where s = "''sold''" and lid = 1 and c = fulfilled_store]
          updateLeadStatus_frame [where s = "''unassigned''" and lid = 1 and c = fulfilled_store]
          h1 h2 e1 e2 e3 e4 e5
    by simp
qed

section \<open>The cap of a region\<close>

text \<open>
  C1 at a cap of zero. State CA is configured with \<open>max_leads = 0\<close> and has three
  unassigned leads. \<open>stateCaps[state] || 10\<close> takes the 0 for a missing entry, so
  createOrder assigns all three leads, and CA then has three Assigned leads against a
  cap of 0.
\<close>

theorem zero_cap_is_replaced_by_default:
  "state_caps (ca_tables 0) = [(''CA'', 0)]
   \<and> spec_cap (state_caps (ca_tables 0)) ''CA'' = 0
   \<and> assigned_count (ca_tables 0) ''CA'' = 0
   \<and> js_or (js_get (state_caps (ca_tables 0)) ''CA'') 10 = JNumber 10
   \<and> assigned_ids (createOrder ''Ann'' ''ann@email.com'' (Some [''CA''])
                     (connect (ca_tables 0) 9 [])) = [1, 2, 3]
   \<and> assigned_count (db (snd (createOrder ''Ann'' ''ann@email.com'' (Some [''CA''])
                                (connect (ca_tables 0) 9 [])))) ''CA'' = 3"
  by code_simp

section \<open>The allocation loop without storage faults\<close>

lemma set_leads_simps [simp]:
  "faults (set_leads ls c) = faults c" "now (set_leads ls c) = now c"
  "saved (set_leads ls c) = saved c" "leads (db (set_leads ls c)) = ls"
  "orders (db (set_leads ls c)) = orders (db c)"
  "state_caps (db (set_leads ls c)) = state_caps (db c)"
  "orders_seq (db (set_leads ls c)) = orders_seq (db c)"
  "set_leads ls (set_leads ls' c) = set_leads ls c"
  "set_leads (leads (db c)) c = c"
  by (simp_all add: set_leads_def)

lemma assigned_row_simps [simp]:
  "lead_id (assigned_row oi t0 l) = lead_id l" "state (assigned_row oi t0 l) = state l"
  "status (assigned_row oi t0 l) = Assigned" "order_id (assigned_row oi t0 l) = Some oi"
  "created_at (assigned_row oi t0 l) = created_at l"
  "assigned_row oi t0 (assigned_row oi t0 l) = assigned_row oi t0 l"
  by (simp_all add: assigned_row_def)

lemma assign_rows_empty [simp]: "assign_rows oi t0 {} ls = ls"
  by (simp add: assign_rows_def)

lemma assign_rows_insert:
  "assign_rows oi t0 ids (assign_rows oi t0 {i} ls) = assign_rows oi t0 (insert i ids) ls"
  by (simp add: assign_rows_def)

lemma sql_assign_lead_rows:
  "sql_assign_lead oi i t0 t = ((), t\<lparr>leads := assign_rows oi t0 {i} (leads t)\<rparr>)"
  by (simp add: sql_assign_lead_def assign_rows_def assigned_row_def)

lemma assign_leads_ok:
  "faults c = [] \<Longrightarrow>
     assign_leads (Some r) rows acc c =
       (Inr (acc @ map (pushed_lead (oid r)) rows),
        set_leads (assign_rows (oid r) (now c) (lead_id ` set rows) (leads (db c))) c)"
proof (induction rows arbitrary: acc c)
  case Nil
  then show ?case by (simp add: ret_def)
next
  case (Cons l rows)
  let ?c1 = "set_leads (assign_rows (oid r) (now c) {lead_id l} (leads (db c))) c"
  have step: "query (sql_assign_lead (oid r) (lead_id l)) c = (Inr (), ?c1)"
    using Cons.prems by (simp add: query_ok sql_assign_lead_rows set_leads_def)
  have "faults ?c1 = []" using Cons.prems by simp
  note IH = Cons.IH [OF this, of "acc @ [pushed_lead (oid r) l]"]
  show ?case
    using IH by (simp add: await_def step assign_rows_insert pushed_lead_def)
qed

lemma assign_state_ok:
  assumes "faults c = []"
  shows "assign_state (Some r) caps st acc c =
           (Inr (fst (pass (oid r) (now c) caps st (acc, leads (db c)))),
            set_leads (snd (pass (oid r) (now c) caps st (acc, leads (db c)))) c)"
proof -
  have cnt: "query (sql_count_assigned st) c =
      (Inr (int (length (filter (\<lambda>l. state l = st \<and> status l = Assigned) (leads (db c))))), c)"
    using assms by (simp add: query_ok sql_count_assigned_def)
  show ?thesis
  proof (cases "to_assign caps st (leads (db c))")
    case None
    then show ?thesis
      by (simp add: assign_state_def await_def cnt Let_def to_assign_def [symmetric]
            pass_def selected_def ret_def)
  next
    case (Some n)
    show ?thesis
    proof (cases "n > 0")
      case True
      have sel: "query (sql_select_oldest_unassigned st n) c
          = (Inr (take (nat n) (sort_key created_at (pool st (leads (db c))))), c)"
        using assms by (simp add: query_ok sql_select_oldest_unassigned_def pool_def)
      show ?thesis
        using Some True
        by (simp add: assign_state_def await_def cnt Let_def to_assign_def [symmetric]
              pass_def selected_def sel assign_leads_ok [OF assms])
    next
      case False
      then show ?thesis
        using Some
        by (simp add: assign_state_def await_def cnt Let_def to_assign_def [symmetric]
              pass_def selected_def ret_def)
    qed
  qed
qed

lemma assign_states_ok:
  "faults c = [] \<Longrightarrow>
     assign_states (Some r) caps sts acc c =
       (Inr (fst (fold (pass (oid r) (now c) caps) sts (acc, leads (db c)))),
        set_leads (snd (fold (pass (oid r) (now c) caps) sts (acc, leads (db c)))) c)"
proof (induction sts arbitrary: acc c)
  case Nil
  then show ?case by (simp add: ret_def)
next
  case (Cons st sts)
  let ?p = "pass (oid r) (now c) caps st (acc, leads (db c))"
  have "faults (set_leads (snd ?p) c) = []" using Cons.prems by simp
  note IH = Cons.IH [OF this, of "fst ?p"]
  show ?case
    by (simp add: await_def assign_state_ok [OF Cons.prems] IH)
qed

lemma fold_max_ge: "(a::nat) \<le> fold max xs a \<and> (\<forall>x \<in> set xs. x \<le> fold max xs a)"
proof (induction xs arbitrary: a)
  case Nil
  show ?case by simp
next
  case (Cons y ys)
  have "max y a \<le> fold max ys (max y a)" and "\<forall>x \<in> set ys. x \<le> fold max ys (max y a)"
    using Cons.IH [of "max y a"] by simp_all
  then show ?case by auto
qed

lemma new_order_id_fresh: "r \<in> set (orders t) \<Longrightarrow> oid r < new_order_id t"
  using fold_max_ge [of "orders_seq t" "map oid (orders t)"]
  by (auto simp: new_order_id_def less_Suc_eq_le)

lemma new_order_id_gt_seq: "orders_seq t < new_order_id t"
  using fold_max_ge [of "orders_seq t" "map oid (orders t)"]
  by (auto simp: new_order_id_def less_Suc_eq_le)

lemma oid_new_order_row [simp]: "oid (new_order_row n e t0 t) = new_order_id t"
  by (simp add: new_order_row_def)

lemma createOrder_ok:
  assumes "saved c = None" and "faults c = []" and "n \<noteq> []" and "e \<noteq> []"
  shows "createOrder n e rs c =
     (Inr (Some (new_order_row n e (now c) (db c)),
           fst (fold (pass (new_order_id (db c)) (now c) (state_caps (db c)))
                  (effective_states rs) ([], leads (db c)))),
      c\<lparr>db := (db c)\<lparr>leads := snd (fold (pass (new_order_id (db c)) (now c) (state_caps (db c)))
                                      (effective_states rs) ([], leads (db c))),
                       orders := orders (db c) @ [new_order_row n e (now c) (db c)],
                       orders_seq := new_order_id (db c)\<rparr>\<rparr>)"
proof -
  let ?row = "new_order_row n e (now c) (db c)"
  let ?c0 = "begin_transaction c"
  let ?t1 = "(db c)\<lparr>orders := orders (db c) @ [?row], orders_seq := new_order_id (db c)\<rparr>"
  let ?c1 = "?c0\<lparr>db := ?t1\<rparr>"
  have f0: "faults ?c0 = []" "now ?c0 = now c" "db ?c0 = db c"
    using assms(1,2) by (simp_all add: begin_ok)
  have ins: "query (sql_insert_order n e) ?c0 = (Inr (new_order_id (db c)), ?c1)"
    using f0 by (simp add: query_ok sql_insert_order_def Let_def new_order_id_def new_order_row_def)
  have f1: "faults ?c1 = []" "now ?c1 = now c" "db ?c1 = ?t1"
    using f0 by simp_all
  have "filter (\<lambda>r. oid r = new_order_id (db c)) (orders (db c)) = []"
    using new_order_id_fresh [of _ "db c"] by (fastforce simp: filter_empty_conv)
  then have sel: "query (sql_select_order (new_order_id (db c))) ?c1 = (Inr [?row], ?c1)"
    using f1 by (simp add: query_ok sql_select_order_def)
  have caps: "query sql_select_caps ?c1 = (Inr (state_caps (db c)), ?c1)"
    using f1 by (simp add: query_ok sql_select_caps_def)
  have loop: "assign_states (Some ?row) (state_caps (db c)) (effective_states rs) [] ?c1 =
      (Inr (fst (fold (pass (new_order_id (db c)) (now c) (state_caps (db c)))
                  (effective_states rs) ([], leads (db c)))),
       set_leads (snd (fold (pass (new_order_id (db c)) (now c) (state_caps (db c)))
                  (effective_states rs) ([], leads (db c)))) ?c1)"
    using assign_states_ok [OF f1(1), of ?row "state_caps (db c)" "effective_states rs" "[]"] f1
    by simp
  have cb: "create_order_callback n e rs ?c0 =
      (Inr (Some ?row,
            fst (fold (pass (new_order_id (db c)) (now c) (state_caps (db c)))
                  (effective_states rs) ([], leads (db c)))),
       set_leads (snd (fold (pass (new_order_id (db c)) (now c) (state_caps (db c)))
                  (effective_states rs) ([], leads (db c)))) ?c1)"
    by (simp add: create_order_callback_def await_def ins sel caps loop ret_def Let_def)
  have tr: "transaction (create_order_callback n e rs) c =
      commit (Some ?row,
              fst (fold (pass (new_order_id (db c)) (now c) (state_caps (db c)))
                    (effective_states rs) ([], leads (db c))))
        (set_leads (snd (fold (pass (new_order_id (db c)) (now c) (state_caps (db c)))
                    (effective_states rs) ([], leads (db c)))) ?c1)"
    by (simp add: transaction_def cb)
  have c0: "?c0 = c\<lparr>saved := Some (db c)\<rparr>"
    using assms(1,2) by (simp add: begin_ok)
  show ?thesis
    using assms
    by (simp add: createOrder_def tr c0 commit_ok set_leads_def)
qed

section \<open>What a pass selects\<close>

lemma sorted_take_drop_le:
  assumes "sorted (map f xs)" and "x \<in> set (take n xs)" and "y \<in> set (drop n xs)"
  shows "f x \<le> f y"
proof -
  have "sorted (map f (take n xs) @ map f (drop n xs))"
    using assms(1) by (metis append_take_drop_id map_append)
  then show ?thesis
    using assms(2,3) by (auto simp: sorted_append)
qed

lemma filter_take_prefix: "\<exists>m. filter P (take n xs) = take m (filter P xs)"
proof (induction xs arbitrary: n)
  case Nil
  show ?case by simp
next
  case (Cons x xs)
  show ?case
  proof (cases n)
    case 0
    then show ?thesis by (intro exI [of _ 0]) simp
  next
    case (Suc k)
    obtain m where m: "filter P (take k xs) = take m (filter P xs)"
      using Cons.IH by blast
    show ?thesis
    proof (cases "P x")
      case True
      then show ?thesis using Suc m by (intro exI [of _ "Suc m"]) simp
    next
      case False
      then show ?thesis using Suc m by (intro exI [of _ m]) simp
    qed
  qed
qed

lemma to_assign_cap:
  assumes "map_of (rev caps) st \<noteq> Some 0" and "st \<notin> set object_prototype_keys"
  shows "to_assign caps st ls =
     Some (min (max 0 (spec_cap caps st
                 - int (length (filter (\<lambda>l. state l = st \<and> status l = Assigned) ls)))) 5)"
  using assms
  by (auto simp: to_assign_def js_get_def js_or_def js_minus_def Math_max_def Math_min_def
        spec_cap_def split: option.splits)

lemma selected_subset: "set (selected caps st ls) \<subseteq> set (pool st ls)"
  by (auto simp: selected_def split: option.splits dest: in_set_takeD)

lemma selected_unassigned:
  "x \<in> set (selected caps st ls) \<Longrightarrow> x \<in> set ls \<and> state x = st \<and> status x = Unassigned"
  using selected_subset [of caps st ls] by (auto simp: pool_def)

lemma selected_distinct: "distinct ls \<Longrightarrow> distinct (selected caps st ls)"
  by (auto simp: selected_def pool_def split: option.splits)

lemma selected_sorted: "sorted (map created_at (selected caps st ls))"
proof (cases "to_assign caps st ls")
  case None
  then show ?thesis by (simp add: selected_def)
next
  case (Some n)
  have "sorted (map created_at (sort_key created_at (pool st ls)))" by simp
  then have "sorted (take (nat n) (map created_at (sort_key created_at (pool st ls))))"
    by (rule sorted_wrt_take)
  then show ?thesis using Some by (simp add: selected_def take_map)
qed

lemma selected_oldest:
  assumes "x \<in> set (selected caps st ls)" and "y \<in> set (pool st ls) - set (selected caps st ls)"
  shows "created_at x \<le> created_at y"
proof (cases "to_assign caps st ls")
  case None
  then show ?thesis using assms(1) by (simp add: selected_def)
next
  case (Some n)
  let ?xs = "sort_key created_at (pool st ls)"
  have sel: "selected caps st ls = take (nat n) ?xs"
    using Some by (simp add: selected_def)
  have "y \<in> set ?xs" using assms(2) by simp
  then have "y \<in> set (take (nat n) ?xs) \<union> set (drop (nat n) ?xs)"
    by (metis append_take_drop_id set_append)
  then have "y \<in> set (drop (nat n) ?xs)"
    using assms(2) sel by auto
  moreover have "sorted (map created_at ?xs)" by simp
  ultimately show ?thesis
    using assms(1) sel sorted_take_drop_le [of created_at ?xs x "nat n" y] by simp
qed

lemma selected_ties:
  "\<exists>m. filter (\<lambda>l. created_at l = k) (selected caps st ls)
        = take m (filter (\<lambda>l. created_at l = k) (pool st ls))"
proof (cases "to_assign caps st ls")
  case None
  then show ?thesis by (intro exI [of _ 0]) (simp add: selected_def)
next
  case (Some n)
  obtain m where "filter (\<lambda>l. created_at l = k) (take (nat n) (sort_key created_at (pool st ls)))
      = take m (filter (\<lambda>l. created_at l = k) (sort_key created_at (pool st ls)))"
    using filter_take_prefix by blast
  then show ?thesis
    using Some by (intro exI [of _ m]) (simp add: selected_def sort_key_stable)
qed

lemma ties_by_id:
  assumes "\<And>k. sorted_wrt (\<lambda>x y. lead_id x < lead_id y) (filter (\<lambda>l. created_at l = k) xs)"
  shows "sorted_wrt (\<lambda>x y. created_at x = created_at y \<longrightarrow> lead_id x < lead_id y) xs"
  using assms
proof (induction xs)
  case Nil
  show ?case by simp
next
  case (Cons x xs)
  have tail: "sorted_wrt (\<lambda>x y. lead_id x < lead_id y) (filter (\<lambda>l. created_at l = k) xs)" for k
    using Cons.prems [of k] by (simp split: if_splits)
  have head: "lead_id x < lead_id y" if "y \<in> set xs" and "created_at x = created_at y" for y
    using Cons.prems [of "created_at x"] that by simp
  show ?case
    using Cons.IH [OF tail] head by simp
qed

lemma selected_ties_by_id:
  assumes "sorted_wrt (<) (map lead_id ls)"
  shows "sorted_wrt (\<lambda>x y. created_at x = created_at y \<longrightarrow> lead_id x < lead_id y)
           (selected caps st ls)"
proof (rule ties_by_id)
  fix k
  have "sorted_wrt (\<lambda>x y. lead_id x < lead_id y) ls"
    using assms by (simp add: sorted_wrt_map)
  then have "sorted_wrt (\<lambda>x y. lead_id x < lead_id y) (filter (\<lambda>l. created_at l = k) (pool st ls))"
    unfolding pool_def by (intro sorted_wrt_filter)
  then have "sorted_wrt (\<lambda>x y. lead_id x < lead_id y)
               (take m (filter (\<lambda>l. created_at l = k) (pool st ls)))" for m
    by (rule sorted_wrt_take)
  then show "sorted_wrt (\<lambda>x y. lead_id x < lead_id y)
               (filter (\<lambda>l. created_at l = k) (selected caps st ls))"
    using selected_ties [of k caps st ls] by auto
qed

lemma selected_length:
  "length (selected caps st ls) =
     (case to_assign caps st ls of None \<Rightarrow> 0 | Some n \<Rightarrow> min (nat n) (length (pool st ls)))"
  by (simp add: selected_def min.commute split: option.splits)

lemma distinct_ids_distinct: "distinct (map lead_id ls) \<Longrightarrow> distinct ls"
  by (simp add: distinct_map)

lemma id_mem_selected:
  assumes "distinct (map lead_id ls)" and "l \<in> set ls" and "set sel \<subseteq> set ls"
  shows "lead_id l \<in> lead_id ` set sel \<longleftrightarrow> l \<in> set sel"
proof
  assume "lead_id l \<in> lead_id ` set sel"
  then obtain x where x: "x \<in> set sel" "lead_id x = lead_id l" by auto
  then have "x \<in> set ls" using assms(3) by auto
  then have "x = l"
    using assms(1,2) x(2) by (meson distinct_map inj_onD)
  then show "l \<in> set sel" using x(1) by simp
qed auto

lemma assign_rows_nth:
  assumes "distinct (map lead_id ls)" and "set sel \<subseteq> set ls" and "k < length ls"
  shows "assign_rows oi t0 (lead_id ` set sel) ls ! k
           = (if ls ! k \<in> set sel then assigned_row oi t0 (ls ! k) else ls ! k)"
  using assms id_mem_selected [OF assms(1) _ assms(2), of "ls ! k"]
  by (simp add: assign_rows_def)

text \<open>
  C5, as the code has it. In one pass of createOrder over a region whose configured cap
  is not zero (and whose code is not the name of a property of \<open>Object.prototype\<close>),
  with no storage fault: the number of leads assigned is
  min(min(max(0, cap - currentAssignedCount), 5), number of Unassigned leads of the
  region); the leads chosen are Unassigned leads of the region, in ascending order of
  created timestamp, none of them newer than an Unassigned lead of the region that was
  not chosen, and among leads with equal timestamps the ones earlier in the table are
  chosen first, which is by ascending id when the table is in ascending order of id;
  exactly the chosen rows become Assigned to the order and every other row is as before.
\<close>

theorem allocation_pass_selection:
  assumes "faults c = []" and "distinct (map lead_id (leads (db c)))"
    and "map_of (rev caps) st \<noteq> Some 0" and "st \<notin> set object_prototype_keys"
  shows "\<exists>chosen.
      fst (assign_state (Some r) caps st acc c)
        = Inr (acc @ map (\<lambda>l. l\<lparr>status := Assigned, order_id := Some (oid r)\<rparr>) chosen)
    \<and> int (length chosen)
        = min (min (max 0 (spec_cap caps st - int (assigned_count (db c) st))) 5)
              (int (length (pool st (leads (db c)))))
    \<and> set chosen \<subseteq> set (pool st (leads (db c))) \<and> distinct chosen
    \<and> sorted (map created_at chosen)
    \<and> (\<forall>x\<in>set chosen. \<forall>y\<in>set (pool st (leads (db c))) - set chosen.
          created_at x \<le> created_at y)
    \<and> (\<forall>k. \<exists>m. filter (\<lambda>l. created_at l = k) chosen
                  = take m (filter (\<lambda>l. created_at l = k) (pool st (leads (db c)))))
    \<and> (sorted_wrt (<) (map lead_id (leads (db c))) \<longrightarrow>
          sorted_wrt (\<lambda>x y. created_at x = created_at y \<longrightarrow> lead_id x < lead_id y) chosen)
    \<and> length (leads (db (snd (assign_state (Some r) caps st acc c)))) = length (leads (db c))
    \<and> (\<forall>k<length (leads (db c)).
         leads (db (snd (assign_state (Some r) caps st acc c))) ! k =
           (if leads (db c) ! k \<in> set chosen
            then (leads (db c) ! k)\<lparr>status := Assigned, order_id := Some (oid r),
                                     updated_at := now c\<rparr>
            else leads (db c) ! k))"
proof -
  let ?ls = "leads (db c)"
  let ?sel = "selected caps st ?ls"
  note run = assign_state_ok [OF assms(1), of r caps st acc]
  have sub: "set ?sel \<subseteq> set ?ls"
    using selected_unassigned [of _ caps st ?ls] by auto
  have 1: "fst (assign_state (Some r) caps st acc c)
        = Inr (acc @ map (\<lambda>l. l\<lparr>status := Assigned, order_id := Some (oid r)\<rparr>) ?sel)"
    using run by (simp add: pass_def pushed_lead_def [abs_def])
  have 2: "int (length ?sel)
        = min (min (max 0 (spec_cap caps st - int (assigned_count (db c) st))) 5)
              (int (length (pool st ?ls)))"
    by (simp add: selected_length to_assign_cap [OF assms(3,4)] assigned_count_def)
  have 3: "set ?sel \<subseteq> set (pool st ?ls)" by (rule selected_subset)
  have 4: "distinct ?sel"
    using assms(2) by (intro selected_distinct distinct_ids_distinct)
  have 5: "sorted (map created_at ?sel)" by (rule selected_sorted)
  have 6: "\<forall>x\<in>set ?sel. \<forall>y\<in>set (pool st ?ls) - set ?sel. created_at x \<le> created_at y"
    using selected_oldest by blast
  have 7: "\<forall>k. \<exists>m. filter (\<lambda>l. created_at l = k) ?sel
                  = take m (filter (\<lambda>l. created_at l = k) (pool st ?ls))"
    using selected_ties by blast
  have 10: "sorted_wrt (<) (map lead_id ?ls) \<longrightarrow>
          sorted_wrt (\<lambda>x y. created_at x = created_at y \<longrightarrow> lead_id x < lead_id y) ?sel"
    using selected_ties_by_id by blast
  have 8: "length (leads (db (snd (assign_state (Some r) caps st acc c)))) = length ?ls"
    using run by (simp add: pass_def assign_rows_def)
  have 9: "\<forall>k<length ?ls.
         leads (db (snd (assign_state (Some r) caps st acc c))) ! k =
           (if ?ls ! k \<in> set ?sel
            then (?ls ! k)\<lparr>status := Assigned, order_id := Some (oid r), updated_at := now c\<rparr>
            else ?ls ! k)"
    using run assign_rows_nth [OF assms(2) sub]
    by (simp add: pass_def assigned_row_def)
  from 1 2 3 4 5 6 7 8 9 10 show ?thesis by blast
qed

theorem allocation_pass_selection_witness:
  "faults (connect (ca_tables 2) 9 []) = []
   \<and> distinct (map lead_id (leads (db (connect (ca_tables 2) 9 []))))
   \<and> map_of (rev [(''CA'', 2::int)]) ''CA'' \<noteq> Some 0
   \<and> ''CA'' \<notin> set object_prototype_keys
   \<and> sorted_wrt (<) (map lead_id (leads (db (connect (ca_tables 2) 9 []))))
   \<and> (\<exists>chosen.
         fst (assign_state (Some ann_order) [(''CA'', 2)] ''CA'' [] (connect (ca_tables 2) 9 []))
           = Inr (map (\<lambda>l. l\<lparr>status := Assigned, order_id := Some 1\<rparr>) chosen)
       \<and> int (length chosen) = 2
       \<and> sorted (map created_at chosen)
       \<and> sorted_wrt (\<lambda>x y. created_at x = created_at y \<longrightarrow> lead_id x < lead_id y) chosen)
   \<and> assigned_ids (createOrder ''Ann'' ''ann@email.com'' (Some [''CA''])
                     (connect (ca_tables 2) 9 [])) = [1, 2]
   \<and> map status (leads (db (snd (createOrder ''Ann'' ''ann@email.com'' (Some [''CA''])
                                  (connect (ca_tables 2) 9 [])))))
       = [Assigned, Assigned, Unassigned]"
proof -
  let ?c = "connect (ca_tables 2) 9 []"
  have h1: "faults ?c = []" by code_simp
  have h2: "distinct (map lead_id (leads (db ?c)))" by code_simp
  have h3: "map_of (rev [(''CA'', 2::int)]) ''CA'' \<noteq> Some 0" by simp
  have h4: "''CA'' \<notin> set object_prototype_keys" by code_simp
  have h5: "sorted_wrt (<) (map lead_id (leads (db ?c)))"
    by (simp add: connect_def ca_tables_def sample_lead_def)
  have e1: "min (min (max 0 (spec_cap [(''CA'', 2)] ''CA'' - int (assigned_count (db ?c) ''CA''))) 5)
              (int (length (pool ''CA'' (leads (db ?c))))) = 2"
    by code_simp
  have e2: "oid ann_order = 1" by code_simp
  have e3: "assigned_ids (createOrder ''Ann'' ''ann@email.com'' (Some [''CA'']) ?c) = [1, 2]"
    by code_simp
  have e4: "map status (leads (db (snd (createOrder ''Ann'' ''ann@email.com'' (Some [''CA'']) ?c))))
       = [Assigned, Assigned, Unassigned]"
    by code_simp
  obtain chosen where
    "fst (assign_state (Some ann_order) [(''CA'', 2)] ''CA'' [] ?c)
       = Inr ([] @ map (\<lambda>l. l\<lparr>status := Assigned, order_id := Some (oid ann_order)\<rparr>) chosen)"
    and "int (length chosen)
       = min (min (max 0 (spec_cap [(''CA'', 2)] ''CA'' - int (assigned_count (db ?c) ''CA''))) 5)
              (int (length (pool ''CA'' (leads (db ?c)))))"
    and "sorted (map created_at chosen)"
    and "sorted_wrt (<) (map lead_id (leads (db ?c))) \<longrightarrow>
          sorted_wrt (\<lambda>x y. created_at x = created_at y \<longrightarrow> lead_id x < lead_id y) chosen"
    using allocation_pass_selection [OF h1 h2 h3 h4, of ann_order "[]"] by blast
  then have "\<exists>chosen.
         fst (assign_state (Some ann_order) [(''CA'', 2)] ''CA'' [] ?c)
           = Inr (map (\<lambda>l. l\<lparr>status := Assigned, order_id := Some 1\<rparr>) chosen)
       \<and> int (length chosen) = 2
       \<and> sorted (map created_at chosen)
       \<and> sorted_wrt (\<lambda>x y. created_at x = created_at y \<longrightarrow> lead_id x < lead_id y) chosen"
    using e1 e2 h5 by auto
  then show ?thesis
    using h1 h2 h3 h4 h5 e3 e4 by simp
qed

text \<open>The claim as stated fails when the region has fewer Unassigned leads than free
  slots: the sample store has cap 10 and no Assigned lead in CA, so the formula of the
  claim gives min(max(0, 10 - 0), 5) = 5, and the two Unassigned CA leads are all that
  createOrder assigns.\<close>

theorem fewer_leads_than_slots:
  "spec_cap (state_caps (seed_tables 0)) ''CA'' = 10
   \<and> assigned_count (seed_tables 0) ''CA'' = 0
   \<and> min (max 0 (spec_cap (state_caps (seed_tables 0)) ''CA''
                  - int (assigned_count (seed_tables 0) ''CA''))) 5 = 5
   \<and> assigned_ids (createOrder ''Ann'' ''ann@email.com'' (Some [''CA''])
                     (connect (seed_tables 0) 9 [])) = [1, 2]
   \<and> int (length (assigned_ids (createOrder ''Ann'' ''ann@email.com'' (Some [''CA''])
                                 (connect (seed_tables 0) 9 [])))) \<noteq> 5"
  by code_simp

section \<open>createOrder changes Unassigned leads only\<close>

lemma touched_refl: "list_all2 (touched oi t0) ls ls"
  by (simp add: list_all2_refl touched_def)

lemma touched_ids:
  assumes "list_all2 (touched oi t0) ls0 ls"
  shows "map lead_id ls = map lead_id ls0"
  using assms by (induction rule: list_all2_induct) (auto simp: touched_def)

lemma pass_touched:
  assumes "distinct (map lead_id ls0)" and "list_all2 (touched oi t0) ls0 (snd al)"
  shows "list_all2 (touched oi t0) ls0 (snd (pass oi t0 caps st al))"
proof -
  let ?ls = "snd al"
  let ?sel = "selected caps st ?ls"
  have len: "length ?ls = length ls0"
    using assms(2) by (simp add: list_all2_lengthD)
  have dist: "distinct (map lead_id ?ls)"
    using assms(1) touched_ids [OF assms(2)] by simp
  have sub: "set ?sel \<subseteq> set ?ls"
    using selected_unassigned [of _ caps st ?ls] by auto
  have "touched oi t0 (ls0 ! k) (assign_rows oi t0 (lead_id ` set ?sel) ?ls ! k)"
    if k: "k < length ls0" for k
  proof -
    have t: "touched oi t0 (ls0 ! k) (?ls ! k)"
      using assms(2) k by (simp add: list_all2_conv_all_nth)
    show ?thesis
    proof (cases "?ls ! k \<in> set ?sel")
      case True
      then have "status (?ls ! k) = Unassigned"
        using selected_unassigned by blast
      then have "?ls ! k = ls0 ! k"
        using t by (auto simp: touched_def)
      then show ?thesis
        using True \<open>status (?ls ! k) = Unassigned\<close> k len
        by (simp add: assign_rows_nth [OF dist sub] touched_def)
    next
      case False
      then show ?thesis
        using t k len by (simp add: assign_rows_nth [OF dist sub])
    qed
  qed
  then show ?thesis
    using len by (simp add: pass_def list_all2_conv_all_nth assign_rows_def)
qed

lemma fold_pass_touched:
  assumes "distinct (map lead_id ls0)"
  shows "list_all2 (touched oi t0) ls0 (snd al)
     \<Longrightarrow> list_all2 (touched oi t0) ls0 (snd (fold (pass oi t0 caps) sts al))"
proof (induction sts arbitrary: al)
  case Nil
  then show ?case by simp
next
  case (Cons st sts)
  show ?case
    using Cons.IH [OF pass_touched [OF assms Cons.prems]] by simp
qed

lemma pass_returned_ok:
  assumes "distinct (map lead_id ls0)" and "list_all2 (touched oi t0) ls0 (snd al)"
    and "returned_ok oi ls0 (fst al) (snd al)"
  shows "returned_ok oi ls0 (fst (pass oi t0 caps st al)) (snd (pass oi t0 caps st al))"
proof -
  let ?ls = "snd al"
  let ?acc = "fst al"
  let ?sel = "selected caps st ?ls"
  let ?ls' = "assign_rows oi t0 (lead_id ` set ?sel) ?ls"
  have dist: "distinct (map lead_id ?ls)"
    using assms(1) touched_ids [OF assms(2)] by simp
  have sel_in: "\<And>x. x \<in> set ?sel \<Longrightarrow> x \<in> set ?ls \<and> status x = Unassigned"
    using selected_unassigned by blast
  have sel_dist: "distinct (map lead_id ?sel)"
  proof -
    have "distinct ?sel"
      using dist by (intro selected_distinct distinct_ids_distinct)
    moreover have "inj_on lead_id (set ?sel)"
      using dist sel_in by (meson distinct_map inj_on_subset subsetI)
    ultimately show ?thesis by (simp add: distinct_map)
  qed
  have disjoint: "lead_id ` set ?acc \<inter> lead_id ` set ?sel = {}"
  proof -
    have False if a: "a \<in> set ?acc" and x: "x \<in> set ?sel" and eq: "lead_id a = lead_id x"
      for a x
    proof -
      have "status x = Assigned"
        using assms(3) a eq sel_in [OF x] by (auto simp: returned_ok_def)
      then show False using sel_in [OF x] by simp
    qed
    then show ?thesis by (auto simp: image_iff)
  qed
  have d: "distinct (map lead_id (?acc @ map (pushed_lead oi) ?sel))"
  proof -
    have eq: "map lead_id (?acc @ map (pushed_lead oi) ?sel) = map lead_id ?acc @ map lead_id ?sel"
      by (simp add: pushed_lead_def comp_def)
    show ?thesis
      unfolding eq using assms(3) sel_dist disjoint by (simp add: returned_ok_def)
  qed
  have from_ls0: "\<exists>l0 \<in> set ls0. status l0 = Unassigned \<and> pushed_lead oi x = pushed_lead oi l0"
    if x: "x \<in> set ?sel" for x
  proof -
    note xin = sel_in [OF x]
    obtain k where k: "k < length ?ls" "?ls ! k = x"
      using xin by (auto simp: in_set_conv_nth)
    have "touched oi t0 (ls0 ! k) x" "k < length ls0"
      using assms(2) k by (auto simp: list_all2_conv_all_nth)
    then have "x = ls0 ! k"
      using xin by (auto simp: touched_def)
    then show ?thesis
      using \<open>k < length ls0\<close> xin by (metis nth_mem)
  qed
  have st_old: "status l' = Assigned"
    if a: "a \<in> set ?acc" and l': "l' \<in> set ?ls'" and eq: "lead_id l' = lead_id a" for a l'
  proof -
    obtain l where l: "l \<in> set ?ls"
        "l' = (if lead_id l \<in> lead_id ` set ?sel then assigned_row oi t0 l else l)"
      using l' by (auto simp: assign_rows_def)
    show ?thesis
    proof (cases "lead_id l \<in> lead_id ` set ?sel")
      case True
      then show ?thesis using l by simp
    next
      case False
      then have "l' = l" using l by simp
      then show ?thesis
        using assms(3) a eq l(1) by (auto simp: returned_ok_def)
    qed
  qed
  have st_new: "status l' = Assigned"
    if x: "x \<in> set ?sel" and l': "l' \<in> set ?ls'" and eq: "lead_id l' = lead_id x" for x l'
  proof -
    obtain l where l: "l \<in> set ?ls"
        "l' = (if lead_id l \<in> lead_id ` set ?sel then assigned_row oi t0 l else l)"
      using l' by (auto simp: assign_rows_def)
    have "lead_id l = lead_id x"
      using l(2) eq by (simp split: if_splits)
    then have "lead_id l \<in> lead_id ` set ?sel"
      using x by (metis image_eqI)
    then show ?thesis using l by simp
  qed
  show ?thesis
    unfolding returned_ok_def pass_def fst_conv snd_conv
  proof (rule conjI, (rule d), rule ballI, rule conjI)
    fix a assume a: "a \<in> set (?acc @ map (pushed_lead oi) ?sel)"
    show "\<exists>l0 \<in> set ls0. status l0 = Unassigned \<and> a = pushed_lead oi l0"
      using a assms(3) from_ls0 by (auto simp: returned_ok_def)
    show "\<forall>l \<in> set ?ls'. lead_id l = lead_id a \<longrightarrow> status l = Assigned"
    proof (intro ballI impI)
      fix l' assume l': "l' \<in> set ?ls'" "lead_id l' = lead_id a"
      from a consider "a \<in> set ?acc" | x where "x \<in> set ?sel" "a = pushed_lead oi x"
        by auto
      then show "status l' = Assigned"
      proof cases
        case 1
        then show ?thesis using st_old l' by blast
      next
        case 2
        then have "lead_id l' = lead_id x" using l'(2) by (simp add: pushed_lead_def)
        then show ?thesis using st_new 2(1) l'(1) by blast
      qed
    qed
  qed
qed

lemma fold_pass_returned_ok:
  assumes "distinct (map lead_id ls0)"
  shows "list_all2 (touched oi t0) ls0 (snd al) \<Longrightarrow> returned_ok oi ls0 (fst al) (snd al)
     \<Longrightarrow> returned_ok oi ls0 (fst (fold (pass oi t0 caps) sts al))
           (snd (fold (pass oi t0 caps) sts al))"
proof (induction sts arbitrary: al)
  case Nil
  then show ?case by simp
next
  case (Cons st sts)
  show ?case
    using Cons.IH [OF pass_touched [OF assms Cons.prems(1)]
                      pass_returned_ok [OF assms Cons.prems(1,2)]]
    by simp
qed

lemma touched_frame:
  assumes "list_all2 (touched oi t0) ls0 ls"
  shows "length ls = length ls0
       \<and> (\<forall>k<length ls0. status (ls0 ! k) \<noteq> Unassigned \<longrightarrow> ls ! k = ls0 ! k)"
  using assms by (auto simp: list_all2_conv_all_nth touched_def)

lemma returned_ok_ids:
  assumes "returned_ok oi ls0 acc ls"
  shows "distinct (map lead_id acc)
       \<and> (\<forall>i\<in>set (map lead_id acc). \<exists>l\<in>set ls0. lead_id l = i \<and> status l = Unassigned)"
proof -
  have "\<exists>l\<in>set ls0. lead_id l = lead_id a \<and> status l = Unassigned" if a: "a \<in> set acc" for a
  proof -
    obtain l0 where "l0 \<in> set ls0" "status l0 = Unassigned" "a = pushed_lead oi l0"
      using assms a unfolding returned_ok_def by blast
    then show ?thesis by (auto simp: pushed_lead_def)
  qed
  then show ?thesis
    using assms by (auto simp: returned_ok_def)
qed

text \<open>
  C10. createOrder (route handler and automation command, no storage fault, lead ids
  unique) keeps every row whose status is Assigned or Fulfilled before the call exactly
  as it was, returns no lead twice, and returns only leads that were Unassigned before
  the call. The same frame holds for the allocation loop started in any table, so the
  leads that an earlier pass assigned are not changed by a later pass over the same
  region.
\<close>

theorem createOrder_touches_only_unassigned:
  assumes "saved c = None" and "faults c = []" and "distinct (map lead_id (leads (db c)))"
  shows "length (leads (db (snd (createOrder n e rs c)))) = length (leads (db c))
       \<and> (\<forall>k<length (leads (db c)). status (leads (db c) ! k) \<noteq> Unassigned \<longrightarrow>
             leads (db (snd (createOrder n e rs c))) ! k = leads (db c) ! k)
       \<and> distinct (assigned_ids (createOrder n e rs c))
       \<and> (\<forall>i\<in>set (assigned_ids (createOrder n e rs c)).
             \<exists>l\<in>set (leads (db c)). lead_id l = i \<and> status l = Unassigned)
       \<and> createOrderAutomation n e rs c = createOrder n e rs c
       \<and> length (leads (db (snd (assign_states (Some r) caps sts acc c)))) = length (leads (db c))
       \<and> (\<forall>k<length (leads (db c)). status (leads (db c) ! k) \<noteq> Unassigned \<longrightarrow>
             leads (db (snd (assign_states (Some r) caps sts acc c))) ! k = leads (db c) ! k)"
proof -
  let ?ls0 = "leads (db c)"
  have auto_eq: "createOrderAutomation n e rs c = createOrder n e rs c"
    by (simp add: createOrderAutomation_def createOrder_def)
  have loop: "length (leads (db (snd (assign_states (Some r) caps sts acc c)))) = length ?ls0
       \<and> (\<forall>k<length ?ls0. status (?ls0 ! k) \<noteq> Unassigned \<longrightarrow>
             leads (db (snd (assign_states (Some r) caps sts acc c))) ! k = ?ls0 ! k)"
    using touched_frame [OF fold_pass_touched [OF assms(3),
            of "oid r" "now c" "(acc, ?ls0)" caps sts]]
    by (simp add: assign_states_ok [OF assms(2)] touched_refl)
  have create: "length (leads (db (snd (createOrder n e rs c)))) = length ?ls0
       \<and> (\<forall>k<length ?ls0. status (?ls0 ! k) \<noteq> Unassigned \<longrightarrow>
             leads (db (snd (createOrder n e rs c))) ! k = ?ls0 ! k)
       \<and> distinct (assigned_ids (createOrder n e rs c))
       \<and> (\<forall>i\<in>set (assigned_ids (createOrder n e rs c)).
             \<exists>l\<in>set ?ls0. lead_id l = i \<and> status l = Unassigned)"
  proof (cases "n = [] \<or> e = []")
    case True
    then show ?thesis
      by (auto simp: createOrder_def throw_def assigned_ids_def)
  next
    case False
    let ?F = "fold (pass (new_order_id (db c)) (now c) (state_caps (db c)))
                (effective_states rs) ([], ?ls0)"
    have run: "createOrder n e rs c =
       (Inr (Some (new_order_row n e (now c) (db c)), fst ?F),
        c\<lparr>db := (db c)\<lparr>leads := snd ?F,
                         orders := orders (db c) @ [new_order_row n e (now c) (db c)],
                         orders_seq := new_order_id (db c)\<rparr>\<rparr>)"
      using createOrder_ok [OF assms(1,2), of n e rs] False by simp
    have t: "list_all2 (touched (new_order_id (db c)) (now c)) ?ls0 (snd ?F)"
      using fold_pass_touched [OF assms(3), of "new_order_id (db c)" "now c" "([], ?ls0)"]
      by (simp add: touched_refl)
    have r: "returned_ok (new_order_id (db c)) ?ls0 (fst ?F) (snd ?F)"
      using fold_pass_returned_ok [OF assms(3), of "new_order_id (db c)" "now c" "([], ?ls0)"]
      by (simp add: touched_refl returned_ok_def)
    show ?thesis
      using touched_frame [OF t] returned_ok_ids [OF r]
      by (simp add: run assigned_ids_def)
  qed
  from create auto_eq loop show ?thesis by blast
qed

theorem createOrder_touches_only_unassigned_witness:
  "saved fulfilled_store = None \<and> faults fulfilled_store = []
   \<and> distinct (map lead_id (leads (db fulfilled_store)))
   \<and> map status (leads (db fulfilled_store)) = [Fulfilled, Fulfilled, Unassigned]
   \<and> assigned_ids (createOrder ''Bob'' ''bob@email.com'' (Some [''CA'', ''CA'']) fulfilled_store)
       = [3]
   \<and> distinct (assigned_ids (createOrder ''Bob'' ''bob@email.com'' (Some [''CA'', ''CA''])
                               fulfilled_store))
   \<and> length (leads (db (snd (createOrder ''Bob'' ''bob@email.com'' (Some [''CA'', ''CA''])
                               fulfilled_store)))) = 3
   \<and> leads (db (snd (createOrder ''Bob'' ''bob@email.com'' (Some [''CA'', ''CA''])
                       fulfilled_store))) ! 0 = leads (db fulfilled_store) ! 0
   \<and> leads (db (snd (createOrder ''Bob'' ''bob@email.com'' (Some [''CA'', ''CA''])
                       fulfilled_store))) ! 1 = leads (db fulfilled_store) ! 1
   \<and> map status (leads (db (snd (createOrder ''Bob'' ''bob@email.com'' (Some [''CA'', ''CA''])
                                   fulfilled_store))))
       = [Fulfilled, Fulfilled, Assigned]"
proof -
  let ?run = "createOrder ''Bob'' ''bob@email.com'' (Some [''CA'', ''CA'']) fulfilled_store"
  have h1: "saved fulfilled_store = None" by code_simp
  have h2: "faults fulfilled_store = []" by code_simp
  have h3: "distinct (map lead_id (leads (db fulfilled_store)))" by code_simp
  have e0: "length (leads (db fulfilled_store)) = 3" by code_simp
  have e1: "map status (leads (db fulfilled_store)) = [Fulfilled, Fulfilled, Unassigned]"
    by code_simp
  have e2: "assigned_ids ?run = [3]" by code_simp
  have e3: "map status (leads (db (snd ?run))) = [Fulfilled, Fulfilled, Assigned]" by code_simp
  have s0: "status (leads (db fulfilled_store) ! 0) \<noteq> Unassigned" by code_simp
  have s1: "status (leads (db fulfilled_store) ! 1) \<noteq> Unassigned" by code_simp
  note inst = createOrder_touches_only_unassigned
               [OF h1 h2 h3, of "''Bob''" "''bob@email.com''" "Some [''CA'', ''CA'']"]
  have len: "length (leads (db (snd ?run))) = 3"
    using inst e0 by simp
  have k0: "leads (db (snd ?run)) ! 0 = leads (db fulfilled_store) ! 0"
    using inst e0 s0 by simp
  have k1: "leads (db (snd ?run)) ! 1 = leads (db fulfilled_store) ! 1"
    using inst e0 s1 by simp
  have d: "distinct (assigned_ids ?run)"
    using inst by simp
  show ?thesis
    using h1 h2 h3 e1 e2 e3 len k0 k1 d by simp
qed

section \<open>Create, delete, create again\<close>

lemma list_all2_filter_rel:
  assumes "list_all2 R xs ys" and "\<And>x y. R x y \<Longrightarrow> P x = Q y"
  shows "list_all2 R (filter P xs) (filter Q ys)"
  using assms by (induction rule: list_all2_induct) auto

lemma list_all2_insort_key:
  assumes "list_all2 R xs ys" and "R x y" and "\<And>a b. R a b \<Longrightarrow> f a = g b"
  shows "list_all2 R (insort_key f x xs) (insort_key g y ys)"
  using assms(1)
proof (induction rule: list_all2_induct)
  case Nil
  then show ?case using assms(2) by simp
next
  case (Cons a as b bs)
  have "f a = g b" "f x = g y"
    using assms(2,3) Cons.hyps(1) by auto
  then show ?case
    using Cons assms(2) by simp
qed

lemma list_all2_sort_key:
  assumes "list_all2 R xs ys" and "\<And>a b. R a b \<Longrightarrow> f a = g b"
  shows "list_all2 R (sort_key f xs) (sort_key g ys)"
  using assms(1)
proof (induction rule: list_all2_induct)
  case Nil
  then show ?case by simp
next
  case (Cons a as b bs)
  then show ?case
    using list_all2_insort_key [of R "sort_key f as" "sort_key g bs" a b f g] assms(2)
    by simp
qed

lemma same_pool_ids:
  "list_all2 same_pool ls ls' \<Longrightarrow> map lead_id ls = map lead_id ls'"
  by (induction rule: list_all2_induct) (auto simp: same_pool_def)

lemma same_pool_to_assign:
  assumes "list_all2 same_pool ls ls'"
  shows "to_assign caps st ls = to_assign caps st ls'"
proof -
  have "list_all2 same_pool (filter (\<lambda>l. state l = st \<and> status l = Assigned) ls)
                            (filter (\<lambda>l. state l = st \<and> status l = Assigned) ls')"
    using assms by (rule list_all2_filter_rel) (auto simp: same_pool_def)
  then have "length (filter (\<lambda>l. state l = st \<and> status l = Assigned) ls)
           = length (filter (\<lambda>l. state l = st \<and> status l = Assigned) ls')"
    by (rule list_all2_lengthD)
  then show ?thesis by (simp add: to_assign_def)
qed

lemma same_pool_selected:
  assumes "list_all2 same_pool ls ls'"
  shows "list_all2 same_pool (selected caps st ls) (selected caps st ls')"
proof -
  have p: "list_all2 same_pool (pool st ls) (pool st ls')"
    unfolding pool_def using assms by (rule list_all2_filter_rel) (auto simp: same_pool_def)
  have s: "list_all2 same_pool (sort_key created_at (pool st ls))
                               (sort_key created_at (pool st ls'))"
    using p by (rule list_all2_sort_key) (auto simp: same_pool_def)
  show ?thesis
    using s same_pool_to_assign [OF assms, of caps st]
    by (auto simp: selected_def split: option.splits intro: list_all2_takeI)
qed

lemma same_pool_assign_rows:
  assumes "list_all2 same_pool ls ls'"
  shows "list_all2 same_pool (assign_rows oi t0 ids ls) (assign_rows oi' t0' ids ls')"
  using assms
  by (induction rule: list_all2_induct) (auto simp: assign_rows_def same_pool_def)

lemma same_pool_pass:
  assumes "list_all2 same_pool (snd al) (snd al')" and "map lead_id (fst al) = map lead_id (fst al')"
  shows "list_all2 same_pool (snd (pass oi t0 caps st al)) (snd (pass oi' t0' caps st al'))
       \<and> map lead_id (fst (pass oi t0 caps st al)) = map lead_id (fst (pass oi' t0' caps st al'))"
proof -
  have sel: "list_all2 same_pool (selected caps st (snd al)) (selected caps st (snd al'))"
    using assms(1) by (rule same_pool_selected)
  then have ids: "map lead_id (selected caps st (snd al)) = map lead_id (selected caps st (snd al'))"
    by (rule same_pool_ids)
  then have idset: "lead_id ` set (selected caps st (snd al))
                  = lead_id ` set (selected caps st (snd al'))"
    by (metis set_map)
  have pushed: "\<And>i xs. map lead_id (map (pushed_lead i) xs) = map lead_id xs"
    by (simp add: pushed_lead_def comp_def)
  show ?thesis
    using assms(2) ids same_pool_assign_rows [OF assms(1)]
    by (simp add: pass_def idset pushed del: map_map)
qed

lemma same_pool_fold_pass:
  "list_all2 same_pool (snd al) (snd al') \<Longrightarrow> map lead_id (fst al) = map lead_id (fst al')
   \<Longrightarrow> map lead_id (fst (fold (pass oi t0 caps) sts al))
       = map lead_id (fst (fold (pass oi' t0' caps) sts al'))"
proof (induction sts arbitrary: al al')
  case Nil
  then show ?case by simp
next
  case (Cons st sts)
  show ?case
    using Cons.IH [of "pass oi t0 caps st al" "pass oi' t0' caps st al'"]
          same_pool_pass [OF Cons.prems, of oi t0 caps st oi' t0']
    by simp
qed

lemma same_pool_after_release:
  assumes "list_all2 (touched oi t0) ls0 ls" and "\<forall>l\<in>set ls0. order_id l \<noteq> Some oi"
  shows "list_all2 same_pool ls0
           (map (\<lambda>l. if order_id l = Some oi
                      then l\<lparr>status := Unassigned, order_id := None, updated_at := t1\<rparr>
                      else l) ls)"
  using assms
proof (induction rule: list_all2_induct)
  case Nil
  then show ?case by simp
next
  case (Cons l0 ls0 l ls)
  have "same_pool l0 (if order_id l = Some oi
                      then l\<lparr>status := Unassigned, order_id := None, updated_at := t1\<rparr>
                      else l)"
    using Cons.hyps(1) Cons.prems
    by (auto simp: touched_def same_pool_def assigned_row_def)
  then show ?case using Cons by simp
qed

text \<open>
  The two integrity conditions of the round trip hold in the sample store and are kept
  by every statement that the handlers issue (createOrder assigns with the id it has
  just inserted, which is the new value of the sequence), hence by createOrder and
  deleteOrder as a whole.
\<close>

lemma statements_keep_lead_ids:
  "map lead_id (leads (snd (sql_insert_order n e t0 t))) = map lead_id (leads t)"
  "map lead_id (leads (snd (sql_assign_lead oi lid t0 t))) = map lead_id (leads t)"
  "map lead_id (leads (snd (sql_fulfill_order i t0 t))) = map lead_id (leads t)"
  "map lead_id (leads (snd (sql_fulfill_leads i t0 t))) = map lead_id (leads t)"
  "map lead_id (leads (snd (sql_cancel_order i t0 t))) = map lead_id (leads t)"
  "map lead_id (leads (snd (sql_release_leads i t0 t))) = map lead_id (leads t)"
  "map lead_id (leads (snd (sql_delete_order i t0 t))) = map lead_id (leads t)"
  "map lead_id (leads (snd (sql_set_lead_status s lid t0 t))) = map lead_id (leads t)"
  by (simp_all add: sql_insert_order_def sql_assign_lead_def sql_fulfill_order_def
        sql_fulfill_leads_def sql_cancel_order_def sql_release_leads_def sql_delete_order_def
        sql_set_lead_status_def Let_def comp_def if_distrib cong: if_cong)

lemma statements_keep_refs_issued:
  assumes "refs_issued t"
  shows "refs_issued (snd (sql_insert_order n e t0 t))"
    and "oi \<le> orders_seq t \<Longrightarrow> refs_issued (snd (sql_assign_lead oi lid t0 t))"
    and "refs_issued (snd (sql_fulfill_order i t0 t))"
    and "refs_issued (snd (sql_fulfill_leads i t0 t))"
    and "refs_issued (snd (sql_cancel_order i t0 t))"
    and "refs_issued (snd (sql_release_leads i t0 t))"
    and "refs_issued (snd (sql_delete_order i t0 t))"
    and "refs_issued (snd (sql_set_lead_status s lid t0 t))"
proof -
  have "orders_seq t \<le> fold max (map oid (orders t)) (orders_seq t)"
    using fold_max_ge [of "orders_seq t" "map oid (orders t)"] by simp
  then show "refs_issued (snd (sql_insert_order n e t0 t))"
    using assms by (fastforce simp: refs_issued_def sql_insert_order_def Let_def)
  show "oi \<le> orders_seq t \<Longrightarrow> refs_issued (snd (sql_assign_lead oi lid t0 t))"
    using assms by (auto simp: refs_issued_def sql_assign_lead_def split: if_splits)
  show "refs_issued (snd (sql_fulfill_order i t0 t))"
    using assms by (simp add: refs_issued_def sql_fulfill_order_def)
  show "refs_issued (snd (sql_fulfill_leads i t0 t))"
    using assms by (auto simp: refs_issued_def sql_fulfill_leads_def split: if_splits)
  show "refs_issued (snd (sql_cancel_order i t0 t))"
    using assms by (simp add: refs_issued_def sql_cancel_order_def)
  show "refs_issued (snd (sql_release_leads i t0 t))"
    using assms by (auto simp: refs_issued_def sql_release_leads_def split: if_splits)
  show "refs_issued (snd (sql_delete_order i t0 t))"
    using assms by (simp add: refs_issued_def sql_delete_order_def)
  show "refs_issued (snd (sql_set_lead_status s lid t0 t))"
    using assms by (auto simp: refs_issued_def sql_set_lead_status_def split: if_splits)
qed

lemma sample_store_integrity:
  "distinct (map lead_id (leads (seed_tables t0)))" "refs_issued (seed_tables t0)"
  by (simp_all add: seed_tables_def sample_lead_def refs_issued_def)

lemma createOrder_keeps_integrity:
  assumes "saved c = None" and "faults c = []"
    and "distinct (map lead_id (leads (db c)))" and "refs_issued (db c)"
  shows "distinct (map lead_id (leads (db (snd (createOrder n e rs c)))))
       \<and> refs_issued (db (snd (createOrder n e rs c)))"
proof (cases "n = [] \<or> e = []")
  case True
  then show ?thesis using assms(3,4) by (auto simp: createOrder_def throw_def)
next
  case False
  let ?new = "new_order_id (db c)"
  let ?F = "fold (pass ?new (now c) (state_caps (db c))) (effective_states rs) ([], leads (db c))"
  have run: "leads (db (snd (createOrder n e rs c))) = snd ?F"
            "orders_seq (db (snd (createOrder n e rs c))) = ?new"
    using createOrder_ok [OF assms(1,2), of n e rs] False by simp_all
  have t: "list_all2 (touched ?new (now c)) (leads (db c)) (snd ?F)"
    using fold_pass_touched [OF assms(3), of ?new "now c" "([], leads (db c))"]
    by (simp add: touched_refl)
  have ids: "distinct (map lead_id (snd ?F))"
    using touched_ids [OF t] assms(3) by simp
  have "i \<le> ?new" if l: "l \<in> set (snd ?F)" and i: "order_id l = Some i" for l i
  proof -
    obtain k where k: "k < length (snd ?F)" "snd ?F ! k = l"
      using l by (auto simp: in_set_conv_nth)
    then have tk: "touched ?new (now c) (leads (db c) ! k) l" and kl: "k < length (leads (db c))"
      using t by (auto simp: list_all2_conv_all_nth)
    show ?thesis
    proof (cases "l = leads (db c) ! k")
      case True
      then have "i \<le> orders_seq (db c)"
        using assms(4) kl i unfolding refs_issued_def by (metis nth_mem)
      then show ?thesis using new_order_id_gt_seq [of "db c"] by simp
    next
      case False
      then have "l = assigned_row ?new (now c) (leads (db c) ! k)"
        using tk by (simp add: touched_def)
      then show ?thesis using i by simp
    qed
  qed
  then show ?thesis
    using ids by (auto simp: run refs_issued_def)
qed

lemma deleteOrder_keeps_integrity:
  assumes "saved c = None" and "faults c = []"
    and "distinct (map lead_id (leads (db c)))" and "refs_issued (db c)"
  shows "distinct (map lead_id (leads (db (snd (deleteOrder i c)))))
       \<and> refs_issued (db (snd (deleteOrder i c)))"
proof (cases "i \<in> oid ` set (orders (db c))")
  case True
  have ids: "map lead_id (map (\<lambda>l. if order_id l = Some i
                 then l\<lparr>status := Unassigned, order_id := None, updated_at := now c\<rparr>
                 else l) (leads (db c))) = map lead_id (leads (db c))"
    by (induction "leads (db c)") auto
  have d: "distinct (map lead_id (leads (db (snd (deleteOrder i c)))))"
    using assms(3) ids by (simp add: deleteOrder_existing [OF assms(1,2) True] del: map_map)
  have r: "refs_issued (db (snd (deleteOrder i c)))"
    using assms(4)
    by (auto simp: deleteOrder_existing [OF assms(1,2) True] refs_issued_def split: if_splits)
  from d r show ?thesis by simp
next
  case False
  then show ?thesis
    using assms(3,4) by (simp add: deleteOrder_missing [OF assms(1,2)])
qed

text \<open>
  The table after the allocation loop, exactly: the rows whose ids the loop returned
  are assigned to the order, every other row is as it was. The leads that the loop
  returns carry the status Assigned and the id of the order.
\<close>

lemma assign_rows_union:
  "assign_rows oi t0 A (assign_rows oi t0 B ls) = assign_rows oi t0 (A \<union> B) ls"
  by (simp add: assign_rows_def)

lemma pass_exact:
  assumes "snd al = assign_rows oi t0 (lead_id ` set (fst al)) ls0"
  shows "snd (pass oi t0 caps st al)
           = assign_rows oi t0 (lead_id ` set (fst (pass oi t0 caps st al))) ls0"
proof -
  have "lead_id ` set (fst al @ map (pushed_lead oi) (selected caps st (snd al)))
      = lead_id ` set (selected caps st (snd al)) \<union> lead_id ` set (fst al)"
    by (simp add: image_Un image_image pushed_lead_def Un_commute)
  then show ?thesis
    unfolding pass_def fst_conv snd_conv
    by (subst assms) (simp only: assign_rows_union)
qed

lemma fold_pass_exact:
  "snd al = assign_rows oi t0 (lead_id ` set (fst al)) ls0
   \<Longrightarrow> snd (fold (pass oi t0 caps) sts al)
       = assign_rows oi t0 (lead_id ` set (fst (fold (pass oi t0 caps) sts al))) ls0"
proof (induction sts arbitrary: al)
  case Nil
  then show ?case by simp
next
  case (Cons st sts)
  show ?case
    using Cons.IH [OF pass_exact [OF Cons.prems]] by simp
qed

lemma filter_fresh_order:
  "filter (\<lambda>r. oid r \<noteq> new_order_id t) (orders t @ [new_order_row n e t0 t]) = orders t"
proof -
  have "\<forall>r\<in>set (orders t). oid r \<noteq> new_order_id t"
    using new_order_id_fresh [of _ t] by fastforce
  then show ?thesis by (simp add: filter_id_conv)
qed

lemma unassigned_by_id:
  assumes "distinct (map lead_id ls0)" and "k < length ls0"
    and "\<exists>l\<in>set ls0. lead_id l = lead_id (ls0 ! k) \<and> status l = Unassigned"
  shows "status (ls0 ! k) = Unassigned"
proof -
  obtain l where l: "l \<in> set ls0" "lead_id l = lead_id (ls0 ! k)" "status l = Unassigned"
    using assms(3) by blast
  have "l = ls0 ! k"
    using assms(1,2) l(1,2) by (meson distinct_map inj_onD nth_mem)
  then show ?thesis using l(3) by simp
qed


lemma fold_pass_pushed:
  "\<forall>a\<in>set (fst al). status a = Assigned \<and> order_id a = Some oi
   \<Longrightarrow> \<forall>a\<in>set (fst (fold (pass oi t0 caps) sts al)). status a = Assigned \<and> order_id a = Some oi"
proof (induction sts arbitrary: al)
  case Nil
  then show ?case by simp
next
  case (Cons st sts)
  have "\<forall>a\<in>set (fst (pass oi t0 caps st al)). status a = Assigned \<and> order_id a = Some oi"
    using Cons.prems by (auto simp: pass_def pushed_lead_def)
  from Cons.IH [OF this] show ?case by simp
qed

text \<open>
  C8. Round trip: in a store with unique lead ids whose leads reference only issued
  order ids, a createOrder call (no storage fault) creates an order \<open>row\<close> and returns
  the leads \<open>ls\<close>; deleteOrder on that order at a later time succeeds; the identical
  createOrder call at a still later time creates an order with a larger id and returns
  leads with the same ids in the same order. Row by row: a lead whose id was returned
  was Unassigned before the first call, is Assigned to \<open>row\<close> after it, is Unassigned
  with its reference cleared after the delete, and is Assigned to the new order after
  the third call; every other lead is the same row in all four tables. The returned
  leads carry the status Assigned and the id of their order. The order table holds the
  created order after the first call, is the original table after the delete, and holds
  the new order after the third call.
\<close>

theorem create_delete_create_round_trip:
  assumes "saved c = None" and "faults c = []" and "n \<noteq> []" and "e \<noteq> []"
    and "distinct (map lead_id (leads (db c)))" and "refs_issued (db c)"
  shows "\<exists>row ls c1 c2 row' ls' c3.
       createOrder n e rs c = (Inr (Some row, ls), c1)
     \<and> deleteOrder (oid row) (c1\<lparr>now := t1\<rparr>) = (Inr (OrderDeleted None), c2)
     \<and> createOrder n e rs (c2\<lparr>now := t2\<rparr>) = (Inr (Some row', ls'), c3)
     \<and> map lead_id ls' = map lead_id ls
     \<and> oid row < oid row'
     \<and> (\<forall>a\<in>set ls. status a = Assigned \<and> order_id a = Some (oid row))
     \<and> (\<forall>a\<in>set ls'. status a = Assigned \<and> order_id a = Some (oid row'))
     \<and> length (leads (db c1)) = length (leads (db c))
     \<and> length (leads (db c2)) = length (leads (db c))
     \<and> length (leads (db c3)) = length (leads (db c))
     \<and> (\<forall>k<length (leads (db c)).
          if lead_id (leads (db c) ! k) \<in> set (map lead_id ls)
          then status (leads (db c) ! k) = Unassigned
             \<and> leads (db c1) ! k = (leads (db c) ! k)
                  \<lparr>status := Assigned, order_id := Some (oid row), updated_at := now c\<rparr>
             \<and> leads (db c2) ! k = (leads (db c) ! k)
                  \<lparr>status := Unassigned, order_id := None, updated_at := t1\<rparr>
             \<and> leads (db c3) ! k = (leads (db c) ! k)
                  \<lparr>status := Assigned, order_id := Some (oid row'), updated_at := t2\<rparr>
          else leads (db c1) ! k = leads (db c) ! k
             \<and> leads (db c2) ! k = leads (db c) ! k
             \<and> leads (db c3) ! k = leads (db c) ! k)
     \<and> oid row \<notin> oid ` set (orders (db c))
     \<and> orders (db c1) = orders (db c) @ [row]
     \<and> orders (db c2) = orders (db c)
     \<and> orders (db c3) = orders (db c) @ [row']"
proof -
  let ?ls0 = "leads (db c)"
  let ?new = "new_order_id (db c)"
  let ?row = "new_order_row n e (now c) (db c)"
  let ?caps = "state_caps (db c)"
  let ?F = "fold (pass ?new (now c) ?caps) (effective_states rs) ([], ?ls0)"
  let ?I = "lead_id ` set (fst ?F)"
  let ?release = "\<lambda>l. if order_id l = Some ?new
                       then l\<lparr>status := Unassigned, order_id := None, updated_at := t1\<rparr>
                       else l"
  define c1 where "c1 = snd (createOrder n e rs c)"
  have run1: "createOrder n e rs c = (Inr (Some ?row, fst ?F), c1)"
    unfolding c1_def by (simp add: createOrder_ok [OF assms(1-4)])
  have c1: "saved c1 = None" "faults c1 = []" "leads (db c1) = snd ?F"
    "orders (db c1) = orders (db c) @ [?row]" "orders_seq (db c1) = ?new"
    "state_caps (db c1) = ?caps"
    unfolding c1_def using assms(1,2) by (simp_all add: createOrder_ok [OF assms(1-4)])
  define d1 where "d1 = c1\<lparr>now := t1\<rparr>"
  have d1: "saved d1 = None" "faults d1 = []" "?new \<in> oid ` set (orders (db d1))"
    and d1_db: "db d1 = db c1" "now d1 = t1"
    by (simp_all add: d1_def c1 new_order_row_def)
  define c2 where "c2 = snd (deleteOrder ?new d1)"
  have run2: "deleteOrder ?new d1 = (Inr (OrderDeleted None), c2)"
    unfolding c2_def by (simp add: deleteOrder_existing [OF d1])
  have old: "filter (\<lambda>r. oid r \<noteq> ?new) (orders (db c) @ [?row]) = orders (db c)"
    by (rule filter_fresh_order)
  have c2: "saved c2 = None" "faults c2 = []" "leads (db c2) = map ?release (snd ?F)"
    "orders (db c2) = orders (db c)" "orders_seq (db c2) = ?new" "state_caps (db c2) = ?caps"
    unfolding c2_def using d1(1,2) old
    by (simp_all add: deleteOrder_existing [OF d1] d1_db c1)
  define d2 where "d2 = c2\<lparr>now := t2\<rparr>"
  have d2: "saved d2 = None" "faults d2 = []"
    and d2_db: "db d2 = db c2" "now d2 = t2"
    by (simp_all add: d2_def c2)
  let ?new2 = "new_order_id (db c2)"
  let ?row2 = "new_order_row n e t2 (db c2)"
  let ?G = "fold (pass ?new2 t2 ?caps) (effective_states rs) ([], map ?release (snd ?F))"
  define c3 where "c3 = snd (createOrder n e rs d2)"
  have run3: "createOrder n e rs d2 = (Inr (Some ?row2, fst ?G), c3)"
    unfolding c3_def by (simp add: createOrder_ok [OF d2 assms(3,4)] d2_db c2)
  have c3: "leads (db c3) = snd ?G" "orders (db c3) = orders (db c) @ [?row2]"
    unfolding c3_def by (simp_all add: createOrder_ok [OF d2 assms(3,4)] d2_db c2)
  have fresh: "\<forall>l\<in>set ?ls0. order_id l \<noteq> Some ?new"
    using assms(6) new_order_id_gt_seq [of "db c"] by (fastforce simp: refs_issued_def)
  have t: "list_all2 (touched ?new (now c)) ?ls0 (snd ?F)"
    using fold_pass_touched [OF assms(5), of ?new "now c" "([], ?ls0)"]
    by (simp add: touched_refl)
  have sp: "list_all2 same_pool ?ls0 (map ?release (snd ?F))"
    using same_pool_after_release [OF t fresh] .
  have eq: "map lead_id (fst ?G) = map lead_id (fst ?F)"
    using same_pool_fold_pass [of "([], ?ls0)" "([], map ?release (snd ?F))" ?new "now c" ?caps
            "effective_states rs" ?new2 t2] sp
    by simp
  then have I: "lead_id ` set (fst ?G) = ?I"
    by (metis set_map)
  have L1: "snd ?F = assign_rows ?new (now c) ?I ?ls0"
    by (rule fold_pass_exact) (simp add: assign_rows_def)
  have L3: "snd ?G = assign_rows ?new2 t2 ?I (map ?release (snd ?F))"
    using fold_pass_exact [of "([], map ?release (snd ?F))" ?new2 t2 "map ?release (snd ?F)"
            ?caps "effective_states rs"]
    by (simp add: assign_rows_def I)
  have A: "leads (db c1) = assign_rows ?new (now c) ?I ?ls0"
    "leads (db c2) = map ?release (leads (db c1))"
    "leads (db c3) = assign_rows ?new2 t2 ?I (leads (db c2))"
    using L1 L3 by (simp_all only: c1 c2 c3)
  have ok: "returned_ok ?new ?ls0 (fst ?F) (snd ?F)"
    using fold_pass_returned_ok [OF assms(5), of ?new "now c" "([], ?ls0)"]
    by (simp add: touched_refl returned_ok_def)
  have un: "status (?ls0 ! k) = Unassigned"
    if "k < length ?ls0" "lead_id (?ls0 ! k) \<in> ?I" for k
    using unassigned_by_id [OF assms(5) that(1)] returned_ok_ids [OF ok] that(2) by simp
  have lt: "?new < ?new2"
    using new_order_id_gt_seq [of "db c2"] by (simp add: c2)
  have p1: "\<forall>a\<in>set (fst ?F). status a = Assigned \<and> order_id a = Some ?new"
    by (rule fold_pass_pushed) simp
  have p3: "\<forall>a\<in>set (fst ?G). status a = Assigned \<and> order_id a = Some ?new2"
    by (rule fold_pass_pushed) simp
  have notin: "?new \<notin> oid ` set (orders (db c))"
    using new_order_id_fresh [of _ "db c"] by fastforce
  have rows: "if lead_id (?ls0 ! k) \<in> set (map lead_id (fst ?F))
          then status (?ls0 ! k) = Unassigned
             \<and> leads (db c1) ! k = (?ls0 ! k)
                  \<lparr>status := Assigned, order_id := Some (oid ?row), updated_at := now c\<rparr>
             \<and> leads (db c2) ! k = (?ls0 ! k)
                  \<lparr>status := Unassigned, order_id := None, updated_at := t1\<rparr>
             \<and> leads (db c3) ! k = (?ls0 ! k)
                  \<lparr>status := Assigned, order_id := Some (oid ?row2), updated_at := t2\<rparr>
          else leads (db c1) ! k = ?ls0 ! k
             \<and> leads (db c2) ! k = ?ls0 ! k
             \<and> leads (db c3) ! k = ?ls0 ! k" if k: "k < length ?ls0" for k
  proof (cases "lead_id (?ls0 ! k) \<in> ?I")
    case True
    then show ?thesis
      using k un [OF k True]
      by (simp add: A assign_rows_def assigned_row_def new_order_row_def)
  next
    case False
    have "order_id (?ls0 ! k) \<noteq> Some ?new"
      using fresh k by simp
    then show ?thesis
      using k False
      by (simp add: A assign_rows_def assigned_row_def new_order_row_def)
  qed
  have len: "length (leads (db c1)) = length ?ls0" "length (leads (db c2)) = length ?ls0"
    "length (leads (db c3)) = length ?ls0"
    by (simp_all add: A assign_rows_def)
  have oids: "oid ?row = ?new" "oid ?row2 = ?new2"
    by (simp_all add: new_order_row_def)
  have r2: "deleteOrder (oid ?row) (c1\<lparr>now := t1\<rparr>) = (Inr (OrderDeleted None), c2)"
    using run2 by (simp add: d1_def oids)
  have r3: "createOrder n e rs (c2\<lparr>now := t2\<rparr>) = (Inr (Some ?row2, fst ?G), c3)"
    using run3 by (simp add: d2_def)
  have q1: "\<forall>a\<in>set (fst ?F). status a = Assigned \<and> order_id a = Some (oid ?row)"
    using p1 by (simp add: oids)
  have q3: "\<forall>a\<in>set (fst ?G). status a = Assigned \<and> order_id a = Some (oid ?row2)"
    using p3 by (simp add: oids)
  have lt': "oid ?row < oid ?row2"
    using lt by (simp add: oids)
  have notin': "oid ?row \<notin> oid ` set (orders (db c))"
    using notin by (simp add: oids)
  have rows': "\<forall>k<length ?ls0. if lead_id (?ls0 ! k) \<in> set (map lead_id (fst ?F))
          then status (?ls0 ! k) = Unassigned
             \<and> leads (db c1) ! k = (?ls0 ! k)
                  \<lparr>status := Assigned, order_id := Some (oid ?row), updated_at := now c\<rparr>
             \<and> leads (db c2) ! k = (?ls0 ! k)
                  \<lparr>status := Unassigned, order_id := None, updated_at := t1\<rparr>
             \<and> leads (db c3) ! k = (?ls0 ! k)
                  \<lparr>status := Assigned, order_id := Some (oid ?row2), updated_at := t2\<rparr>
          else leads (db c1) ! k = ?ls0 ! k
             \<and> leads (db c2) ! k = ?ls0 ! k
             \<and> leads (db c3) ! k = ?ls0 ! k"
    using rows by blast
  show ?thesis
    apply (rule exI [of _ ?row], rule exI [of _ "fst ?F"], rule exI [of _ c1], rule exI [of _ c2],
           rule exI [of _ ?row2], rule exI [of _ "fst ?G"], rule exI [of _ c3])
    using run1 r2 r3 eq lt' q1 q3 len rows' notin' c1(4) c2(4) c3(2)
    by (intro conjI) assumption+
qed

theorem create_delete_create_round_trip_witness:
  "saved (connect (ca_tables 2) 9 []) = None \<and> faults (connect (ca_tables 2) 9 []) = []
   \<and> ''Ann'' \<noteq> [] \<and> ''ann@email.com'' \<noteq> []
   \<and> distinct (map lead_id (leads (db (connect (ca_tables 2) 9 []))))
   \<and> refs_issued (db (connect (ca_tables 2) 9 []))
   \<and> map status (leads (db (connect (ca_tables 2) 9 []))) = [Unassigned, Unassigned, Unassigned]
   \<and> assigned_ids (createOrder ''Ann'' ''ann@email.com'' (Some [''CA''])
                     (connect (ca_tables 2) 9 [])) = [1, 2]
   \<and> map status (leads (db round_trip_created)) = [Assigned, Assigned, Unassigned]
   \<and> map order_id (leads (db round_trip_created)) = [Some 1, Some 1, None]
   \<and> map oid (orders (db round_trip_created)) = [1]
   \<and> fst (deleteOrder 1 (round_trip_created\<lparr>now := 10\<rparr>)) = Inr (OrderDeleted None)
   \<and> map status (leads (db round_trip_deleted)) = [Unassigned, Unassigned, Unassigned]
   \<and> map order_id (leads (db round_trip_deleted)) = [None, None, None]
   \<and> orders (db round_trip_deleted) = []
   \<and> assigned_ids (createOrder ''Ann'' ''ann@email.com'' (Some [''CA''])
                     (round_trip_deleted\<lparr>now := 11\<rparr>)) = [1, 2]
   \<and> map status (leads (db round_trip_recreated)) = [Assigned, Assigned, Unassigned]
   \<and> map order_id (leads (db round_trip_recreated)) = [Some 2, Some 2, None]
   \<and> map oid (orders (db round_trip_recreated)) = [2]
   \<and> (\<exists>row ls c1 c2 row' ls' c3.
       createOrder ''Ann'' ''ann@email.com'' (Some [''CA'']) (connect (ca_tables 2) 9 [])
         = (Inr (Some row, ls), c1)
     \<and> deleteOrder (oid row) (c1\<lparr>now := 10\<rparr>) = (Inr (OrderDeleted None), c2)
     \<and> createOrder ''Ann'' ''ann@email.com'' (Some [''CA'']) (c2\<lparr>now := 11\<rparr>)
         = (Inr (Some row', ls'), c3)
     \<and> map lead_id ls' = map lead_id ls
     \<and> oid row < oid row'
     \<and> (\<forall>a\<in>set ls. status a = Assigned \<and> order_id a = Some (oid row))
     \<and> (\<forall>a\<in>set ls'. status a = Assigned \<and> order_id a = Some (oid row'))
     \<and> length (leads (db c1)) = length (leads (db (connect (ca_tables 2) 9 [])))
     \<and> length (leads (db c2)) = length (leads (db (connect (ca_tables 2) 9 [])))
     \<and> length (leads (db c3)) = length (leads (db (connect (ca_tables 2) 9 [])))
     \<and> (\<forall>k<length (leads (db (connect (ca_tables 2) 9 []))).
          if lead_id (leads (db (connect (ca_tables 2) 9 [])) ! k) \<in> set (map lead_id ls)
          then status (leads (db (connect (ca_tables 2) 9 [])) ! k) = Unassigned
             \<and> leads (db c1) ! k = (leads (db (connect (ca_tables 2) 9 [])) ! k)
                  \<lparr>status := Assigned, order_id := Some (oid row), updated_at := now (connect (ca_tables 2) 9 [])\<rparr>
             \<and> leads (db c2) ! k = (leads (db (connect (ca_tables 2) 9 [])) ! k)
                  \<lparr>status := Unassigned, order_id := None, updated_at := 10\<rparr>
             \<and> leads (db c3) ! k = (leads (db (connect (ca_tables 2) 9 [])) ! k)
                  \<lparr>status := Assigned, order_id := Some (oid row'), updated_at := 11\<rparr>
          else leads (db c1) ! k = leads (db (connect (ca_tables 2) 9 [])) ! k
             \<and> leads (db c2) ! k = leads (db (connect (ca_tables 2) 9 [])) ! k
             \<and> leads (db c3) ! k = leads (db (connect (ca_tables 2) 9 [])) ! k)
     \<and> oid row \<notin> oid ` set (orders (db (connect (ca_tables 2) 9 [])))
     \<and> orders (db c1) = orders (db (connect (ca_tables 2) 9 [])) @ [row]
     \<and> orders (db c2) = orders (db (connect (ca_tables 2) 9 []))
     \<and> orders (db c3) = orders (db (connect (ca_tables 2) 9 [])) @ [row'])"
proof -
  let ?c = "connect (ca_tables 2) 9 []"
  have h1: "saved ?c = None" by code_simp
  have h2: "faults ?c = []" by code_simp
  have h3: "''Ann'' \<noteq> []" by simp
  have h4: "''ann@email.com'' \<noteq> []" by simp
  have h5: "distinct (map lead_id (leads (db ?c)))" by code_simp
  have h6: "refs_issued (db ?c)"
    by (simp add: refs_issued_def connect_def ca_tables_def sample_lead_def)
  have e0: "map status (leads (db ?c)) = [Unassigned, Unassigned, Unassigned]"
    by code_simp
  have e1: "assigned_ids (createOrder ''Ann'' ''ann@email.com'' (Some [''CA'']) ?c) = [1, 2]"
    by code_simp
  have e2: "map status (leads (db round_trip_created)) = [Assigned, Assigned, Unassigned]"
    "map order_id (leads (db round_trip_created)) = [Some 1, Some 1, None]"
    "map oid (orders (db round_trip_created)) = [1]"
    by code_simp+
  have e3: "fst (deleteOrder 1 (round_trip_created\<lparr>now := 10\<rparr>)) = Inr (OrderDeleted None)"
    "map status (leads (db round_trip_deleted)) = [Unassigned, Unassigned, Unassigned]"
    "map order_id (leads (db round_trip_deleted)) = [None, None, None]"
    "orders (db round_trip_deleted) = []"
    by code_simp+
  have e4: "assigned_ids (createOrder ''Ann'' ''ann@email.com'' (Some [''CA''])
                     (round_trip_deleted\<lparr>now := 11\<rparr>)) = [1, 2]"
    "map status (leads (db round_trip_recreated)) = [Assigned, Assigned, Unassigned]"
    "map order_id (leads (db round_trip_recreated)) = [Some 2, Some 2, None]"
    "map oid (orders (db round_trip_recreated)) = [2]"
    by code_simp+
  show ?thesis
    using create_delete_create_round_trip [OF h1 h2 h3 h4 h5 h6, of "Some [''CA'']" 10 11]
          h1 h2 h3 h4 h5 h6 e0 e1 e2 e3 e4
    by (intro conjI) assumption+
qed

section \<open>The cap bound for caps other than zero\<close>

text \<open>
  What remains of the cap invariant next to the zero-cap case above: for a region whose
  configured cap is not zero, createOrder keeps the number of Assigned leads within the
  cap, a negative cap selects no lead, and the statements of fulfill, cancel and delete
  never add an Assigned lead.
\<close>

lemma length_filter_disj:
  assumes "\<And>x. x \<in> set xs \<Longrightarrow> \<not> (A x \<and> B x)"
  shows "length (filter (\<lambda>x. A x \<or> B x) xs) = length (filter A xs) + length (filter B xs)"
  using assms by (induction xs) auto

lemma length_filter_mem:
  assumes "distinct xs" and "distinct sel" and "set sel \<subseteq> set xs"
  shows "length (filter (\<lambda>x. x \<in> set sel) xs) = length sel"
proof -
  have "distinct (filter (\<lambda>x. x \<in> set sel) xs)" using assms(1) by simp
  moreover have "set (filter (\<lambda>x. x \<in> set sel) xs) = set sel" using assms(3) by auto
  ultimately show ?thesis
    using assms(2) by (metis distinct_card)
qed

lemma pass_count:
  assumes "distinct (map lead_id ls)"
  shows "length (filter (\<lambda>l. state l = R \<and> status l = Assigned)
                  (assign_rows oi t0 (lead_id ` set (selected caps st ls)) ls))
       = length (filter (\<lambda>l. state l = R \<and> status l = Assigned) ls)
         + (if st = R then length (selected caps st ls) else 0)"
proof -
  let ?sel = "selected caps st ls"
  let ?P = "\<lambda>l. state l = R \<and> status l = Assigned"
  have sub: "set ?sel \<subseteq> set ls"
    using selected_unassigned [of _ caps st ls] by auto
  have rows: "assign_rows oi t0 (lead_id ` set ?sel) ls
            = map (\<lambda>l. if l \<in> set ?sel then assigned_row oi t0 l else l) ls"
    unfolding assign_rows_def
    by (rule map_cong) (simp_all add: id_mem_selected [OF assms _ sub])
  have "filter ?P (map (\<lambda>l. if l \<in> set ?sel then assigned_row oi t0 l else l) ls)
      = map (\<lambda>l. if l \<in> set ?sel then assigned_row oi t0 l else l)
          (filter (\<lambda>l. ?P l \<or> (l \<in> set ?sel \<and> st = R)) ls)"
    unfolding filter_map
    by (rule arg_cong [where f = "map _"], rule filter_cong)
       (auto dest: selected_unassigned)
  then have "length (filter ?P (assign_rows oi t0 (lead_id ` set ?sel) ls))
      = length (filter (\<lambda>l. ?P l \<or> (l \<in> set ?sel \<and> st = R)) ls)"
    by (simp add: rows)
  also have "\<dots> = length (filter ?P ls) + length (filter (\<lambda>l. l \<in> set ?sel \<and> st = R) ls)"
    by (rule length_filter_disj) (auto dest: selected_unassigned)
  also have "length (filter (\<lambda>l. l \<in> set ?sel \<and> st = R) ls)
      = (if st = R then length ?sel else 0)"
    using length_filter_mem [OF distinct_ids_distinct [OF assms]
            selected_distinct [OF distinct_ids_distinct [OF assms]] sub]
    by (cases "st = R") simp_all
  finally show ?thesis .
qed

lemma to_assign_bound:
  assumes "map_of (rev caps) st \<noteq> Some 0"
  shows "case to_assign caps st ls of
           None \<Rightarrow> True
         | Some n \<Rightarrow> n \<le> max 0 (spec_cap caps st
                 - int (length (filter (\<lambda>l. state l = st \<and> status l = Assigned) ls)))"
  using assms
  by (auto simp: to_assign_def js_get_def js_or_def js_minus_def Math_max_def Math_min_def
        spec_cap_def split: option.splits)

lemma selected_bound:
  assumes "map_of (rev caps) st \<noteq> Some 0"
  shows "int (length (selected caps st ls))
       \<le> max 0 (spec_cap caps st
                 - int (length (filter (\<lambda>l. state l = st \<and> status l = Assigned) ls)))"
  using to_assign_bound [OF assms, of ls]
  by (auto simp: selected_def split: option.splits)

lemma negative_cap_selects_nothing:
  assumes "map_of (rev caps) st = Some n" and "n < 0"
  shows "selected caps st ls = []"
  using assms
  by (simp add: selected_def to_assign_def js_get_def js_or_def js_minus_def Math_max_def
        Math_min_def)

lemma pass_keeps_cap:
  assumes "distinct (map lead_id (snd al))" and "map_of (rev caps) R \<noteq> Some 0"
    and "int (length (filter (\<lambda>l. state l = R \<and> status l = Assigned) (snd al))) \<le> spec_cap caps R"
  shows "int (length (filter (\<lambda>l. state l = R \<and> status l = Assigned)
                        (snd (pass oi t0 caps st al)))) \<le> spec_cap caps R"
proof (cases "st = R")
  case True
  then show ?thesis
    using assms(3) selected_bound [OF assms(2), of "snd al"]
    by (simp add: pass_def pass_count [OF assms(1)])
next
  case False
  then show ?thesis
    using assms(3) by (simp add: pass_def pass_count [OF assms(1)])
qed

lemma pass_ids: "map lead_id (snd (pass oi t0 caps st al)) = map lead_id (snd al)"
  by (simp add: pass_def assign_rows_def comp_def)

lemma fold_pass_keeps_cap:
  assumes "map_of (rev caps) R \<noteq> Some 0"
  shows "distinct (map lead_id (snd al))
     \<Longrightarrow> int (length (filter (\<lambda>l. state l = R \<and> status l = Assigned) (snd al))) \<le> spec_cap caps R
     \<Longrightarrow> int (length (filter (\<lambda>l. state l = R \<and> status l = Assigned)
                          (snd (fold (pass oi t0 caps) sts al)))) \<le> spec_cap caps R"
proof (induction sts arbitrary: al)
  case Nil
  then show ?case by simp
next
  case (Cons st sts)
  have d: "distinct (map lead_id (snd (pass oi t0 caps st al)))"
    using Cons.prems(1) by (simp add: pass_ids)
  show ?case
    using Cons.IH [OF d pass_keeps_cap [OF Cons.prems(1) assms Cons.prems(2)]] by simp
qed

lemma createOrder_keeps_nonzero_cap:
  assumes "saved c = None" and "faults c = []" and "distinct (map lead_id (leads (db c)))"
    and "map_of (rev (state_caps (db c))) R \<noteq> Some 0"
    and "int (assigned_count (db c) R) \<le> spec_cap (state_caps (db c)) R"
  shows "int (assigned_count (db (snd (createOrder n e rs c))) R)
           \<le> spec_cap (state_caps (db (snd (createOrder n e rs c)))) R"
proof (cases "n = [] \<or> e = []")
  case True
  then show ?thesis using assms(5) by (auto simp: createOrder_def throw_def)
next
  case False
  show ?thesis
    using fold_pass_keeps_cap [OF assms(4), of "([], leads (db c))" "new_order_id (db c)" "now c"
            "effective_states rs"] assms(3,5) False
    by (simp add: createOrder_ok [OF assms(1,2)] assigned_count_def)
qed

lemma count_map_le:
  assumes "\<And>x. P (g x) \<Longrightarrow> P x"
  shows "length (filter P (map g xs)) \<le> length (filter P xs)"
  using assms by (induction xs) (auto simp: le_SucI)

lemma fulfill_leads_assigns_nothing:
  "assigned_count (snd (sql_fulfill_leads i t0 t)) R \<le> assigned_count t R"
proof -
  have "length (filter (\<lambda>l. state l = R \<and> status l = Assigned)
          (map (\<lambda>l. if order_id l = Some i then l\<lparr>status := Fulfilled, updated_at := t0\<rparr> else l)
             (leads t)))
      \<le> length (filter (\<lambda>l. state l = R \<and> status l = Assigned) (leads t))"
    by (rule count_map_le) (simp split: if_splits)
  then show ?thesis
    by (simp add: assigned_count_def sql_fulfill_leads_def)
qed

lemma release_leads_assigns_nothing:
  "assigned_count (snd (sql_release_leads i t0 t)) R \<le> assigned_count t R"
proof -
  have "length (filter (\<lambda>l. state l = R \<and> status l = Assigned)
          (map (\<lambda>l. if order_id l = Some i
                     then l\<lparr>status := Unassigned, order_id := None, updated_at := t0\<rparr> else l)
             (leads t)))
      \<le> length (filter (\<lambda>l. state l = R \<and> status l = Assigned) (leads t))"
    by (rule count_map_le) (simp split: if_splits)
  then show ?thesis
    by (simp add: assigned_count_def sql_release_leads_def)
qed

lemma order_statements_assign_nothing:
  "assigned_count (snd (sql_fulfill_order i t0 t)) R = assigned_count t R"
  "assigned_count (snd (sql_cancel_order i t0 t)) R = assigned_count t R"
  "assigned_count (snd (sql_delete_order i t0 t)) R = assigned_count t R"
  by (simp_all add: assigned_count_def sql_fulfill_order_def sql_cancel_order_def
       sql_delete_order_def)

end
